theory Spec2Isabelle
  imports Complex_Main "HOL-Library.Word" "HOL-Library.Multiset"
begin

unbundle bit_operations_syntax

section \<open>Common Python notions\<close>

text \<open>
  Exceptions the embedded functions can raise. A function that may raise returns
  \<open>py_error + 'a\<close>, with \<open>Inl\<close> the exception.
\<close>

datatype py_error =
    IndexError
  | KeyError
  | ZeroDivisionError
  | AttributeError
  | StopIteration
  | ValueError
  | AssertionError
  | TypeError

text \<open>Python list indexing with an \<open>int\<close>: a negative index counts from the end.\<close>

definition py_index :: "nat \<Rightarrow> int \<Rightarrow> nat option" where
  "py_index n i =
     (if 0 \<le> i \<and> i < int n then Some (nat i)
      else if - int n \<le> i \<and> i < 0 then Some (nat (int n + i))
      else None)"

definition py_get :: "'a list \<Rightarrow> int \<Rightarrow> py_error + 'a" where
  "py_get xs i = (case py_index (length xs) i of None \<Rightarrow> Inl IndexError | Some j \<Rightarrow> Inr (xs ! j))"

section \<open>Navigation mesh polygon attributes (ynv/navmesh\_attributes.py)\<close>

record NavPolyCoverDirections =
  dir0 :: bool
  dir1 :: bool
  dir2 :: bool
  dir3 :: bool
  dir4 :: bool
  dir5 :: bool
  dir6 :: bool
  dir7 :: bool

record NavPolyAttributes =
  is_small :: bool
  is_large :: bool
  is_pavement :: bool
  is_in_shelter :: bool
  is_too_steep_to_walk_on :: bool
  is_water :: bool
  is_near_car_node :: bool
  is_interior :: bool
  is_isolated :: bool
  is_network_spawn_candidate :: bool
  is_road :: bool
  lies_along_edge :: bool
  is_train_track :: bool
  is_shallow_water :: bool
  cover_directions :: NavPolyCoverDirections
  audio_reverb_size :: int
  audio_reverb_wet :: int
  ped_density :: int

text \<open>
  \<open>NavPolyCoverDirections\<close> is a named tuple: the source reads it by position
  (\<open>cover_directions[i]\<close>) and builds it from eight positional arguments.
\<close>

definition cover_directions_tuple :: "NavPolyCoverDirections \<Rightarrow> bool list" where
  "cover_directions_tuple c = [dir0 c, dir1 c, dir2 c, dir3 c, dir4 c, dir5 c, dir6 c, dir7 c]"

definition NavPolyCoverDirections_of :: "bool list \<Rightarrow> NavPolyCoverDirections" where
  "NavPolyCoverDirections_of bs =
     \<lparr>dir0 = bs ! 0, dir1 = bs ! 1, dir2 = bs ! 2, dir3 = bs ! 3,
      dir4 = bs ! 4, dir5 = bs ! 5, dir6 = bs ! 6, dir7 = bs ! 7\<rparr>"

text \<open>
  The mesh, as far as the two functions see it: whether it is in edit mode, the integer
  face layers of its edit-mode copy and its attributes, each holding one integer per polygon.
  Both are looked up by attribute name.
\<close>

record Mesh =
  is_editmode :: bool
  bm_faces_layers_int :: "string \<rightharpoonup> int list"
  attributes :: "string \<rightharpoonup> int list"

definition POLY_DATA_0 :: string where
  "POLY_DATA_0 = ''.navmesh.poly_data0''"

definition POLY_DATA_1 :: string where
  "POLY_DATA_1 = ''.navmesh.poly_data1''"

text \<open>One polygon's entry of a layer or attribute: reading it and writing it may raise.\<close>

definition poly_value :: "int list \<Rightarrow> nat \<Rightarrow> py_error + int" where
  "poly_value d poly_idx = (if poly_idx < length d then Inr (d ! poly_idx) else Inl IndexError)"

definition set_poly_value :: "int list \<Rightarrow> nat \<Rightarrow> int \<Rightarrow> py_error + int list" where
  "set_poly_value d poly_idx v =
     (if poly_idx < length d then Inr (d[poly_idx := v]) else Inl IndexError)"

text \<open>\<open>0 if attr is None else attr.data[poly_idx].value\<close>.\<close>

definition attr_value_or_0 :: "int list option \<Rightarrow> nat \<Rightarrow> py_error + int" where
  "attr_value_or_0 attr poly_idx = (case attr of None \<Rightarrow> Inr 0 | Some d \<Rightarrow> poly_value d poly_idx)"

text \<open>\<open>if attr is not None: attr.data[poly_idx].value = v\<close>, on the attributes of the mesh.\<close>

definition write_if_present ::
  "(string \<rightharpoonup> int list) \<Rightarrow> string \<Rightarrow> int list option \<Rightarrow> nat \<Rightarrow> int \<Rightarrow>
   py_error + (string \<rightharpoonup> int list)" where
  "write_if_present store attr_name attr poly_idx v =
     (case attr of
        None \<Rightarrow> Inr store
      | Some d \<Rightarrow>
          (case set_poly_value d poly_idx v of
             Inl e \<Rightarrow> Inl e
           | Inr d' \<Rightarrow> Inr (store(attr_name \<mapsto> d'))))"

text \<open>The decoding half of \<open>mesh_get_navmesh_poly_attributes\<close>, from the two stored integers.\<close>

definition unpack_poly_attributes :: "int \<Rightarrow> int \<Rightarrow> NavPolyAttributes" where
  "unpack_poly_attributes data0 data1 =
     (let flags0 = data0 AND 255;
          flags1 = drop_bit 8 data0 AND 255;
          flags2 = data1 AND 255;
          flags3 = drop_bit 8 data1 AND 255
      in \<lparr>is_small = (flags0 AND 1 \<noteq> 0),
          is_large = (flags0 AND 2 \<noteq> 0),
          is_pavement = (flags0 AND 4 \<noteq> 0),
          is_in_shelter = (flags0 AND 8 \<noteq> 0),
          is_too_steep_to_walk_on = (flags0 AND 64 \<noteq> 0),
          is_water = (flags0 AND 128 \<noteq> 0),
          is_near_car_node = (flags1 AND 32 \<noteq> 0),
          is_interior = (flags1 AND 64 \<noteq> 0),
          is_isolated = (flags1 AND 128 \<noteq> 0),
          is_network_spawn_candidate = (flags2 AND 1 \<noteq> 0),
          is_road = (flags2 AND 2 \<noteq> 0),
          lies_along_edge = (flags2 AND 4 \<noteq> 0),
          is_train_track = (flags2 AND 8 \<noteq> 0),
          is_shallow_water = (flags2 AND 16 \<noteq> 0),
          cover_directions =
            NavPolyCoverDirections_of (map (\<lambda>i. flags3 AND push_bit i 1 \<noteq> 0) [0..<8]),
          audio_reverb_size = flags1 AND 3,
          audio_reverb_wet = drop_bit 2 flags1 AND 3,
          ped_density = drop_bit 5 flags2 AND 7\<rparr>)"

text \<open>
  In edit mode the layers are looked up by subscript, \<open>bm.faces.layers.int[name]\<close>, which
  raises \<open>KeyError\<close> for a missing layer, both before any polygon is read; outside edit
  mode the attributes are fetched with \<open>attributes.get(name, None)\<close>, and a missing one
  reads as 0.
\<close>

definition mesh_get_navmesh_poly_attributes :: "Mesh \<Rightarrow> nat \<Rightarrow> py_error + NavPolyAttributes" where
  "mesh_get_navmesh_poly_attributes mesh poly_idx =
     (if is_editmode mesh then
        (case bm_faces_layers_int mesh POLY_DATA_0 of None \<Rightarrow> Inl KeyError | Some data0_layer \<Rightarrow>
         case bm_faces_layers_int mesh POLY_DATA_1 of None \<Rightarrow> Inl KeyError | Some data1_layer \<Rightarrow>
         case poly_value data0_layer poly_idx of Inl e \<Rightarrow> Inl e | Inr data0 \<Rightarrow>
         case poly_value data1_layer poly_idx of Inl e \<Rightarrow> Inl e | Inr data1 \<Rightarrow>
           Inr (unpack_poly_attributes data0 data1))
      else
        (let data0_attr = attributes mesh POLY_DATA_0;
             data1_attr = attributes mesh POLY_DATA_1
         in case attr_value_or_0 data0_attr poly_idx of Inl e \<Rightarrow> Inl e | Inr data0 \<Rightarrow>
            case attr_value_or_0 data1_attr poly_idx of Inl e \<Rightarrow> Inl e | Inr data1 \<Rightarrow>
              Inr (unpack_poly_attributes data0 data1)))"

text \<open>The encoding half of \<open>mesh_set_navmesh_poly_attributes\<close>: the four flag bytes.\<close>

definition pack_flags0 :: "NavPolyAttributes \<Rightarrow> int" where
  "pack_flags0 a =
     ((((((0 OR (if is_small a then 1 else 0))
          OR (if is_large a then 2 else 0))
          OR (if is_pavement a then 4 else 0))
          OR (if is_in_shelter a then 8 else 0))
          OR (if is_too_steep_to_walk_on a then 64 else 0))
          OR (if is_water a then 128 else 0))"

definition pack_flags1 :: "NavPolyAttributes \<Rightarrow> int" where
  "pack_flags1 a =
     (((((audio_reverb_size a AND 3)
          OR push_bit 2 (audio_reverb_wet a AND 3))
          OR (if is_near_car_node a then 32 else 0))
          OR (if is_interior a then 64 else 0))
          OR (if is_isolated a then 128 else 0))"

definition pack_flags2 :: "NavPolyAttributes \<Rightarrow> int" where
  "pack_flags2 a =
     ((((((0 OR (if is_network_spawn_candidate a then 1 else 0))
          OR (if is_road a then 2 else 0))
          OR (if lies_along_edge a then 4 else 0))
          OR (if is_train_track a then 8 else 0))
          OR (if is_shallow_water a then 16 else 0))
          OR push_bit 5 (ped_density a AND 7))"

definition pack_flags3 :: "NavPolyAttributes \<Rightarrow> int" where
  "pack_flags3 a =
     fold (\<lambda>i flags3. flags3 OR
             (if cover_directions_tuple (cover_directions a) ! i then push_bit i 1 else 0))
          [0..<8] 0"

definition pack_data0 :: "NavPolyAttributes \<Rightarrow> int" where
  "pack_data0 a = (pack_flags0 a OR push_bit 8 (pack_flags1 a))"

definition pack_data1 :: "NavPolyAttributes \<Rightarrow> int" where
  "pack_data1 a = (pack_flags2 a OR push_bit 8 (pack_flags3 a))"

definition mesh_set_navmesh_poly_attributes ::
  "Mesh \<Rightarrow> nat \<Rightarrow> NavPolyAttributes \<Rightarrow> py_error + Mesh" where
  "mesh_set_navmesh_poly_attributes mesh poly_idx poly_attrs =
     (let data0 = pack_data0 poly_attrs; data1 = pack_data1 poly_attrs in
      if is_editmode mesh then
        (case bm_faces_layers_int mesh POLY_DATA_0 of None \<Rightarrow> Inl KeyError | Some data0_layer \<Rightarrow>
         case bm_faces_layers_int mesh POLY_DATA_1 of None \<Rightarrow> Inl KeyError | Some data1_layer \<Rightarrow>
         case set_poly_value data0_layer poly_idx data0 of Inl e \<Rightarrow> Inl e | Inr layer0 \<Rightarrow>
         case set_poly_value data1_layer poly_idx data1 of Inl e \<Rightarrow> Inl e | Inr layer1 \<Rightarrow>
           Inr (mesh\<lparr>bm_faces_layers_int :=
                  (bm_faces_layers_int mesh)(POLY_DATA_0 \<mapsto> layer0, POLY_DATA_1 \<mapsto> layer1)\<rparr>))
      else
        (let data0_attr = attributes mesh POLY_DATA_0;
             data1_attr = attributes mesh POLY_DATA_1
         in case write_if_present (attributes mesh) POLY_DATA_0 data0_attr poly_idx data0 of
              Inl e \<Rightarrow> Inl e
            | Inr attrs0 \<Rightarrow>
                (case write_if_present attrs0 POLY_DATA_1 data1_attr poly_idx data1 of
                   Inl e \<Rightarrow> Inl e
                 | Inr attrs1 \<Rightarrow> Inr (mesh\<lparr>attributes := attrs1\<rparr>))))"

text \<open>Where the polygon data of a mesh lives in its current mode.\<close>

definition poly_data_storage :: "Mesh \<Rightarrow> string \<rightharpoonup> int list" where
  "poly_data_storage mesh = (if is_editmode mesh then bm_faces_layers_int mesh else attributes mesh)"

text \<open>A concrete polygon attribute value and a mesh with both attributes, three polygons.\<close>

definition nav_example_attrs :: NavPolyAttributes where
  "nav_example_attrs =
     \<lparr>is_small = True, is_large = False, is_pavement = True, is_in_shelter = False,
      is_too_steep_to_walk_on = True, is_water = False, is_near_car_node = True,
      is_interior = False, is_isolated = True, is_network_spawn_candidate = False,
      is_road = True, lies_along_edge = False, is_train_track = True, is_shallow_water = False,
      cover_directions = \<lparr>dir0 = True, dir1 = False, dir2 = False, dir3 = True,
        dir4 = False, dir5 = True, dir6 = True, dir7 = False\<rparr>,
      audio_reverb_size = 2, audio_reverb_wet = 3, ped_density = 5\<rparr>"

definition nav_example_mesh :: Mesh where
  "nav_example_mesh =
     \<lparr>is_editmode = False, bm_faces_layers_int = Map.empty,
      attributes = [POLY_DATA_0 \<mapsto> [0, 0, 0], POLY_DATA_1 \<mapsto> [0, 0, 0]]\<rparr>"

text \<open>A mesh outside edit mode that has neither attribute.\<close>

definition nav_bare_mesh :: Mesh where
  "nav_bare_mesh = \<lparr>is_editmode = False, bm_faces_layers_int = Map.empty, attributes = Map.empty\<rparr>"

section \<open>Vectors and matrices (the parts of mathutils the export uses)\<close>

text \<open>
  Coordinates, masses and weights are Python floats. They are modelled as real numbers, so
  every statement below is about the values the formulas denote, not about rounding.
\<close>

datatype Vector = Vector (vx: real) (vy: real) (vz: real)

datatype Vector4 = Vector4 real real real real

fun xyz :: "Vector4 \<Rightarrow> Vector" where
  "xyz (Vector4 x y z w) = Vector x y z"

instantiation Vector :: comm_monoid_add
begin

definition zero_Vector :: Vector where
  "zero_Vector = Vector 0 0 0"

definition plus_Vector :: "Vector \<Rightarrow> Vector \<Rightarrow> Vector" where
  "plus_Vector a b = Vector (vx a + vx b) (vy a + vy b) (vz a + vz b)"

instance
  by standard (simp_all add: zero_Vector_def plus_Vector_def)

end

text \<open>\<open>v * s\<close> for a float \<open>s\<close>.\<close>

definition vscale :: "Vector \<Rightarrow> real \<Rightarrow> Vector" where
  "vscale v s = Vector (vx v * s) (vy v * s) (vz v * s)"

text \<open>\<open>v / s\<close>: mathutils raises \<open>ZeroDivisionError\<close> when the divisor is zero.\<close>

definition vdiv :: "Vector \<Rightarrow> real \<Rightarrow> py_error + Vector" where
  "vdiv v s = (if s = 0 then Inl ZeroDivisionError else Inr (Vector (vx v / s) (vy v / s) (vz v / s)))"

text \<open>The squared length of \<open>a - b\<close>.\<close>

definition length_squared_diff :: "Vector \<Rightarrow> Vector \<Rightarrow> real" where
  "length_squared_diff a b = (vx a - vx b)\<^sup>2 + (vy a - vy b)\<^sup>2 + (vz a - vz b)\<^sup>2"

type_synonym row4 = "real \<times> real \<times> real \<times> real"

datatype Matrix = Matrix row4 row4 row4 row4

fun transposed :: "Matrix \<Rightarrow> Matrix" where
  "transposed (Matrix (a0, a1, a2, a3) (b0, b1, b2, b3) (c0, c1, c2, c3) (d0, d1, d2, d3)) =
     Matrix (a0, b0, c0, d0) (a1, b1, c1, d1) (a2, b2, c2, d2) (a3, b3, c3, d3)"

text \<open>
  \<open>M @ v\<close> for a 4x4 matrix and a 3D vector: mathutils extends the vector with a fourth
  component 1 and returns the first three components of the product.
\<close>

fun row_dot :: "row4 \<Rightarrow> Vector \<Rightarrow> real" where
  "row_dot (m0, m1, m2, m3) (Vector x y z) = m0 * x + m1 * y + m2 * z + m3 * 1"

fun matmul_vec :: "Matrix \<Rightarrow> Vector \<Rightarrow> Vector" where
  "matmul_vec (Matrix r0 r1 r2 r3) v = Vector (row_dot r0 v) (row_dot r1 v) (row_dot r2 v)"

definition Matrix_Identity :: Matrix where
  "Matrix_Identity = Matrix (1, 0, 0, 0) (0, 1, 0, 0) (0, 0, 1, 0) (0, 0, 0, 1)"

section \<open>Fragment physics data (the fields the derivation reads and writes)\<close>

record Bound =
  composite_transform :: Matrix
  sphere_center :: Vector

record PhysicsChild =
  group_index :: int
  bone_tag :: int
  pristine_mass :: real
  inertia_tensor :: Vector4

record PhysicsGroup =
  name :: string
  parent_index :: int

record Bone =
  tag :: int
  flags :: "string list"

record JointLimit =
  bone_id :: int

text \<open>
  \<open>bounds\<close> stands for \<open>archetype.bounds.children\<close>: the collision bounds of the composite,
  an entry of which may be \<open>None\<close>.
\<close>

record Archetype =
  mass :: real
  mass_inv :: real
  arch_inertia_tensor :: Vector
  arch_inertia_tensor_inv :: Vector
  bounds :: "Bound option list"

record PhysicsLOD =
  archetype :: Archetype
  groups :: "PhysicsGroup list"
  children :: "PhysicsChild list"
  transforms :: "Matrix list"
  position_offset :: Vector
  unknown_40 :: Vector
  unknown_50 :: Vector

record Fragment =
  lod1 :: PhysicsLOD
  bones :: "Bone list"
  rotation_limits :: "JointLimit list"
  translation_limits :: "JointLimit list"

section \<open>Insertion-ordered dictionaries\<close>

text \<open>
  A Python \<open>dict\<close> keeps its keys in insertion order, and the export iterates over them:
  an association list whose keys are distinct. Storing under an existing key keeps the
  key's place.
\<close>

fun dict_get :: "('k \<times> 'v) list \<Rightarrow> 'k \<Rightarrow> 'v option" where
  "dict_get [] k = None"
| "dict_get ((k', v) # d) k = (if k' = k then Some v else dict_get d k)"

fun dict_set :: "('k \<times> 'v) list \<Rightarrow> 'k \<Rightarrow> 'v \<Rightarrow> ('k \<times> 'v) list" where
  "dict_set [] k v = [(k, v)]"
| "dict_set ((k', v') # d) k v = (if k' = k then (k', v) # d else (k', v') # dict_set d k v)"

text \<open>\<open>d[k].append(x)\<close> on a \<open>defaultdict(list)\<close>.\<close>

definition defaultdict_append :: "('k \<times> 'v list) list \<Rightarrow> 'k \<Rightarrow> 'v \<Rightarrow> ('k \<times> 'v list) list" where
  "defaultdict_append d k x = dict_set d k ((case dict_get d k of None \<Rightarrow> [] | Some xs \<Rightarrow> xs) @ [x])"

text \<open>Filling a \<open>defaultdict(list)\<close> from a list of key-value pairs.\<close>

definition group_pairs :: "('k \<times> 'v) list \<Rightarrow> ('k \<times> 'v list) list" where
  "group_pairs ps = fold (\<lambda>(k, v) d. defaultdict_append d k v) ps []"

section \<open>Sorting physics children and collisions by group (yft/yftexport.py)\<close>

text \<open>First loop of \<open>sort_cols_and_children\<close>: the child indices of each group, in child order.\<close>

definition sort_children_by_group :: "PhysicsChild list \<Rightarrow> (int \<times> nat list) list" where
  "sort_children_by_group cs =
     fold (\<lambda>(i, child) d. defaultdict_append d (group_index child) i) (enumerate 0 cs) []"

text \<open>
  Second loop: the groups in ascending order, their children appended one after another;
  \<open>indices\<close> maps each old child index to its new one.
\<close>

definition sort_visit_child ::
  "PhysicsChild list \<Rightarrow> nat \<Rightarrow> (nat \<times> nat) list \<times> PhysicsChild list \<Rightarrow>
   (nat \<times> nat) list \<times> PhysicsChild list" where
  "sort_visit_child cs child_index st =
     (case st of (indices, sorted_children) \<Rightarrow>
        (dict_set indices child_index (length sorted_children), sorted_children @ [cs ! child_index]))"

definition sort_visit_groups ::
  "PhysicsChild list \<Rightarrow> (int \<times> nat list) list \<Rightarrow> (nat \<times> nat) list \<times> PhysicsChild list" where
  "sort_visit_groups cs d =
     fold (\<lambda>(g, children_indices) st. fold (sort_visit_child cs) children_indices st) d ([], [])"

text \<open>Third loop: the same moves applied to the collisions. \<open>bounds[old_index]\<close> may raise.\<close>

fun sort_collisions ::
  "Bound option list \<Rightarrow> (nat \<times> nat) list \<Rightarrow> Bound option list \<Rightarrow> py_error + Bound option list" where
  "sort_collisions bs [] sorted_collisions = Inr sorted_collisions"
| "sort_collisions bs ((old_index, new_index) # indices) sorted_collisions =
     (if old_index < length bs \<and> new_index < length sorted_collisions
      then sort_collisions bs indices (sorted_collisions[new_index := bs ! old_index])
      else Inl IndexError)"

definition sort_cols_and_children :: "PhysicsLOD \<Rightarrow> py_error + PhysicsLOD" where
  "sort_cols_and_children lod_xml =
     (let bs = bounds (archetype lod_xml); cs = children lod_xml in
      if bs = [] \<or> cs = [] then Inr lod_xml
      else
        let children_by_group = sort_key fst (sort_children_by_group cs);
            (indices, sorted_children) = sort_visit_groups cs children_by_group
        in case sort_collisions bs indices (replicate (length indices) None) of
             Inl e \<Rightarrow> Inl e
           | Inr sorted_collisions \<Rightarrow>
               Inr (lod_xml\<lparr>children := sorted_children,
                            archetype := (archetype lod_xml)\<lparr>bounds := sorted_collisions\<rparr>\<rparr>))"

text \<open>The order the claim describes: child indices sorted by group index, stably.\<close>

definition stable_group_order :: "PhysicsChild list \<Rightarrow> nat list" where
  "stable_group_order cs = sort_key (\<lambda>i. group_index (cs ! i)) [0..<length cs]"

text \<open>
  An example: three children in groups 1, 0, 1 with three collisions, the second of which
  is missing.
\<close>

definition sort_example_children :: "PhysicsChild list" where
  "sort_example_children =
     [\<lparr>group_index = 1, bone_tag = 10, pristine_mass = 1, inertia_tensor = Vector4 0 0 0 0\<rparr>,
      \<lparr>group_index = 0, bone_tag = 20, pristine_mass = 2, inertia_tensor = Vector4 0 0 0 0\<rparr>,
      \<lparr>group_index = 1, bone_tag = 30, pristine_mass = 3, inertia_tensor = Vector4 0 0 0 0\<rparr>]"

definition sort_example_bounds :: "Bound option list" where
  "sort_example_bounds =
     [Some \<lparr>composite_transform = Matrix_Identity, sphere_center = Vector 1 0 0\<rparr>,
      None,
      Some \<lparr>composite_transform = Matrix_Identity, sphere_center = Vector 3 0 0\<rparr>]"

definition sort_example_lod :: PhysicsLOD where
  "sort_example_lod =
     \<lparr>archetype = \<lparr>mass = 0, mass_inv = 0, arch_inertia_tensor = Vector 0 0 0,
                   arch_inertia_tensor_inv = Vector 0 0 0, bounds = sort_example_bounds\<rparr>,
      groups = [\<lparr>name = ''root'', parent_index = 255\<rparr>, \<lparr>name = ''door'', parent_index = 0\<rparr>],
      children = sort_example_children,
      transforms = [],
      position_offset = Vector 0 0 0,
      unknown_40 = Vector 0 0 0,
      unknown_50 = Vector 0 0 0\<rparr>"

text \<open>The same children with one collision more, and with one collision less.\<close>

definition sort_surplus_lod :: PhysicsLOD where
  "sort_surplus_lod =
     sort_example_lod\<lparr>archetype := (archetype sort_example_lod)
       \<lparr>bounds := sort_example_bounds @
          [Some \<lparr>composite_transform = Matrix_Identity, sphere_center = Vector 4 0 0\<rparr>]\<rparr>\<rparr>"

definition sort_short_lod :: PhysicsLOD where
  "sort_short_lod =
     sort_example_lod\<lparr>archetype := (archetype sort_example_lod)\<lparr>bounds := take 2 sort_example_bounds\<rparr>\<rparr>"

section \<open>Archetype mass and inertia (yft/yftexport.py)\<close>

text \<open>The centre of gravity of a bound: \<open>composite_transform.transposed() @ sphere_center\<close>.\<close>

definition bound_center :: "Bound \<Rightarrow> Vector" where
  "bound_center b = matmul_vec (transposed (composite_transform b)) (sphere_center b)"

text \<open>
  \<open>[... for bound_xml in bounds]\<close> in \<open>calculate_archetype_mass_inertia\<close>: the comprehension
  reads an attribute of every bound and has no test for \<open>None\<close>.
\<close>

fun bound_centers :: "Bound option list \<Rightarrow> py_error + Vector list" where
  "bound_centers [] = Inr []"
| "bound_centers (None # bs) = Inl AttributeError"
| "bound_centers (Some b # bs) =
     (case bound_centers bs of Inl e \<Rightarrow> Inl e | Inr cgs \<Rightarrow> Inr (bound_center b # cgs))"

text \<open>
  \<open>calculate_composite_inertia\<close> (shared/geometry) and \<open>vector_inv\<close> (tools/utils) are not
  part of the sources at hand: both are parameters of the model.
\<close>

definition calculate_archetype_mass_inertia ::
  "(Vector \<Rightarrow> Vector list \<Rightarrow> real list \<Rightarrow> Vector list \<Rightarrow> Vector) \<Rightarrow> (Vector \<Rightarrow> Vector) \<Rightarrow>
   PhysicsLOD \<Rightarrow> py_error + PhysicsLOD" where
  "calculate_archetype_mass_inertia calculate_composite_inertia vector_inv lod_xml =
     (let phys_children = children lod_xml;
          bs = bounds (archetype lod_xml);
          masses = map pristine_mass phys_children;
          inertias = map (\<lambda>child_xml. xyz (inertia_tensor child_xml)) phys_children
      in case bound_centers bs of
           Inl e \<Rightarrow> Inl e
         | Inr cgs \<Rightarrow>
             let mass = sum_list masses;
                 inertia = calculate_composite_inertia (position_offset lod_xml) cgs masses inertias
             in Inr (lod_xml\<lparr>archetype := (archetype lod_xml)
                      \<lparr>mass := mass,
                       mass_inv := (if mass \<noteq> 0 then 1 / mass else 0),
                       arch_inertia_tensor := inertia,
                       arch_inertia_tensor_inv := vector_inv inertia\<rparr>\<rparr>))"

text \<open>Two examples: children of mass 0 and 0, and children of mass 2 and 3.5.\<close>

definition mass_example_lod :: "real \<Rightarrow> real \<Rightarrow> PhysicsLOD" where
  "mass_example_lod m1 m2 =
     \<lparr>archetype = \<lparr>mass = 7, mass_inv = 7, arch_inertia_tensor = Vector 0 0 0,
                   arch_inertia_tensor_inv = Vector 0 0 0,
                   bounds = [Some \<lparr>composite_transform = Matrix_Identity, sphere_center = Vector 1 0 0\<rparr>,
                             Some \<lparr>composite_transform = Matrix_Identity, sphere_center = Vector 3 0 0\<rparr>]\<rparr>,
      groups = [\<lparr>name = ''root'', parent_index = 255\<rparr>],
      children =
        [\<lparr>group_index = 0, bone_tag = 10, pristine_mass = m1, inertia_tensor = Vector4 1 1 1 1\<rparr>,
         \<lparr>group_index = 0, bone_tag = 20, pristine_mass = m2, inertia_tensor = Vector4 1 1 1 1\<rparr>],
      transforms = [],
      position_offset = Vector 0 0 0,
      unknown_40 = Vector 0 0 0,
      unknown_50 = Vector 0 0 0\<rparr>"

section \<open>Environment cloth (yft/yftexport.py, \<open>create_frag_env_cloth\<close>)\<close>

text \<open>
  The cloth drawable model as the function reads it: its name, the positions of the vertices
  of its evaluated mesh (vertex \<open>i\<close> has \<open>index\<close> \<open>i\<close>), the vertex triples of its loop
  triangles, the values of the pinned attribute (what \<open>mesh_get_cloth_attribute_values\<close>
  returns for \<open>ClothAttr.PINNED\<close>) and the index of the bone it is attached to, if any.
\<close>

record ClothObj =
  obj_name :: string
  vertices :: "Vector list"
  loop_triangles :: "(nat \<times> nat \<times> nat) list"
  pinned_values :: "int list"
  attached_bone :: "nat option"

record VerletClothEdge =
  vertex0 :: nat
  vertex1 :: nat
  length_sqr :: real
  weight0 :: real
  compression_weight :: real

subsection \<open>Vertex reindexing\<close>

record reindex_state =
  cloth_pin_index :: nat
  cloth_unpin_index :: nat
  cloth_vertices :: "Vector option list"
  mesh_to_cloth_vertex_map :: "nat option list"
  cloth_to_mesh_vertex_map :: "nat option list"

text \<open>\<open>pinned = np.array(...) != 0\<close> and \<open>num_pinned = np.sum(pinned)\<close>.\<close>

definition pinned_array :: "int list \<Rightarrow> bool list" where
  "pinned_array vals = map (\<lambda>x. x \<noteq> 0) vals"

definition num_pinned_of :: "bool list \<Rightarrow> nat" where
  "num_pinned_of pinned = length (filter (\<lambda>p. p) pinned)"

text \<open>One round of the loop over the mesh vertices; every index into a list or array may raise.\<close>

definition reindex_step :: "bool list \<Rightarrow> nat \<times> Vector \<Rightarrow> reindex_state \<Rightarrow> py_error + reindex_state" where
  "reindex_step pinned v st =
     (case v of (index, co) \<Rightarrow>
        if \<not> index < length pinned then Inl IndexError
        else
          let vi = (if pinned ! index then cloth_pin_index st else cloth_unpin_index st);
              st1 = (if pinned ! index
                     then st\<lparr>cloth_pin_index := cloth_pin_index st + 1\<rparr>
                     else st\<lparr>cloth_unpin_index := cloth_unpin_index st + 1\<rparr>)
          in if vi < length (cloth_vertices st1) \<and> index < length (mesh_to_cloth_vertex_map st1)
                \<and> vi < length (cloth_to_mesh_vertex_map st1)
             then Inr (st1\<lparr>cloth_vertices := (cloth_vertices st1)[vi := Some co],
                           mesh_to_cloth_vertex_map := (mesh_to_cloth_vertex_map st1)[index := Some vi],
                           cloth_to_mesh_vertex_map := (cloth_to_mesh_vertex_map st1)[vi := Some index]\<rparr>)
             else Inl IndexError)"

fun reindex_loop :: "bool list \<Rightarrow> (nat \<times> Vector) list \<Rightarrow> reindex_state \<Rightarrow> py_error + reindex_state" where
  "reindex_loop pinned [] st = Inr st"
| "reindex_loop pinned (v # vs) st =
     (case reindex_step pinned v st of Inl e \<Rightarrow> Inl e | Inr st' \<Rightarrow> reindex_loop pinned vs st')"

definition reindex_vertices :: "bool list \<Rightarrow> Vector list \<Rightarrow> py_error + reindex_state" where
  "reindex_vertices pinned verts =
     (let num_vertices = length verts in
      reindex_loop pinned (enumerate 0 verts)
        \<lparr>cloth_pin_index = 0,
         cloth_unpin_index = num_pinned_of pinned,
         cloth_vertices = replicate num_vertices None,
         mesh_to_cloth_vertex_map = replicate num_vertices None,
         cloth_to_mesh_vertex_map = replicate num_vertices None\<rparr>)"

subsection \<open>Edge construction\<close>

text \<open>Reading an entry of a list that was initialised with \<open>None\<close>.\<close>

definition get_filled :: "'a option list \<Rightarrow> nat \<Rightarrow> py_error + 'a" where
  "get_filled xs i =
     (if i < length xs then (case xs ! i of None \<Rightarrow> Inl TypeError | Some x \<Rightarrow> Inr x)
      else Inl IndexError)"

text \<open>
  The body of the inner loop for one vertex pair of a triangle. The state is the edge list
  and the set \<open>edges_added\<close>.
\<close>

definition add_triangle_edge ::
  "bool list \<Rightarrow> reindex_state \<Rightarrow> nat \<times> nat \<Rightarrow> VerletClothEdge list \<times> (nat \<times> nat) set \<Rightarrow>
   py_error + VerletClothEdge list \<times> (nat \<times> nat) set" where
  "add_triangle_edge pinned maps pair st =
     (case pair of (edge_v0, edge_v1) \<Rightarrow>
      case st of (edges, edges_added) \<Rightarrow>
        if (edge_v0, edge_v1) \<in> edges_added \<or> (edge_v1, edge_v0) \<in> edges_added then Inr st
        else if \<not> edge_v0 < length pinned then Inl IndexError
        else if pinned ! edge_v0 \<and> \<not> edge_v1 < length pinned then Inl IndexError
        else if pinned ! edge_v0 \<and> pinned ! edge_v1 then Inr st
        else
          case get_filled (mesh_to_cloth_vertex_map maps) edge_v0 of Inl e \<Rightarrow> Inl e | Inr v0 \<Rightarrow>
          case get_filled (mesh_to_cloth_vertex_map maps) edge_v1 of Inl e \<Rightarrow> Inl e | Inr v1 \<Rightarrow>
          case get_filled (cloth_vertices maps) v0 of Inl e \<Rightarrow> Inl e | Inr p0 \<Rightarrow>
          case get_filled (cloth_vertices maps) v1 of Inl e \<Rightarrow> Inl e | Inr p1 \<Rightarrow>
            if \<not> pinned ! edge_v0 \<and> \<not> edge_v1 < length pinned then Inl IndexError
            else
              Inr (edges @ [\<lparr>vertex0 = v0, vertex1 = v1,
                              length_sqr = length_squared_diff p0 p1,
                              weight0 = (if pinned ! edge_v0 then 0 else if pinned ! edge_v1 then 1 else 1 / 2),
                              compression_weight = 1 / 4\<rparr>],
                   insert (edge_v0, edge_v1) edges_added))"

fun add_edges ::
  "bool list \<Rightarrow> reindex_state \<Rightarrow> (nat \<times> nat) list \<Rightarrow> VerletClothEdge list \<times> (nat \<times> nat) set \<Rightarrow>
   py_error + VerletClothEdge list \<times> (nat \<times> nat) set" where
  "add_edges pinned maps [] st = Inr st"
| "add_edges pinned maps (pair # pairs) st =
     (case add_triangle_edge pinned maps pair st of
        Inl e \<Rightarrow> Inl e
      | Inr st' \<Rightarrow> add_edges pinned maps pairs st')"

text \<open>\<open>((v0, v1), (v1, v2), (v2, v0))\<close> for each triangle, in triangle order.\<close>

definition triangle_pairs :: "(nat \<times> nat \<times> nat) list \<Rightarrow> (nat \<times> nat) list" where
  "triangle_pairs tris = concat (map (\<lambda>(v0, v1, v2). [(v0, v1), (v1, v2), (v2, v0)]) tris)"

definition build_edges ::
  "bool list \<Rightarrow> reindex_state \<Rightarrow> (nat \<times> nat \<times> nat) list \<Rightarrow> py_error + VerletClothEdge list" where
  "build_edges pinned maps tris =
     (case add_edges pinned maps (triangle_pairs tris) ([], {}) of
        Inl e \<Rightarrow> Inl e
      | Inr (edges, edges_added) \<Rightarrow> Inr edges)"

subsection \<open>Edge buckets\<close>

definition MAX_EDGES_IN_BUCKET :: nat where
  "MAX_EDGES_IN_BUCKET = 8"

definition shares_vertex :: "VerletClothEdge \<Rightarrow> VerletClothEdge \<Rightarrow> bool" where
  "shares_vertex e edge_in_bucket \<longleftrightarrow>
     vertex0 e = vertex0 edge_in_bucket \<or> vertex0 e = vertex1 edge_in_bucket \<or>
     vertex1 e = vertex0 edge_in_bucket \<or> vertex1 e = vertex1 edge_in_bucket"

fun can_add_to_bucket :: "VerletClothEdge \<Rightarrow> VerletClothEdge list \<Rightarrow> bool" where
  "can_add_to_bucket e [] = True"
| "can_add_to_bucket e (edge_in_bucket # bucket) =
     (if shares_vertex e edge_in_bucket then False else can_add_to_bucket e bucket)"

text \<open>The scan over the buckets: the index of the bucket the edge is appended to, if any.\<close>

fun find_bucket :: "VerletClothEdge \<Rightarrow> VerletClothEdge list list \<Rightarrow> nat \<Rightarrow> nat option" where
  "find_bucket e [] bucket_index = None"
| "find_bucket e (bucket # buckets) bucket_index =
     (if length bucket \<ge> MAX_EDGES_IN_BUCKET then find_bucket e buckets (bucket_index + 1)
      else if can_add_to_bucket e bucket then Some bucket_index
      else find_bucket e buckets (bucket_index + 1))"

definition place_edge ::
  "VerletClothEdge \<Rightarrow> VerletClothEdge list list \<times> int \<Rightarrow> VerletClothEdge list list \<times> int" where
  "place_edge e st =
     (case st of (edge_buckets, last_bucket_index) \<Rightarrow>
        case find_bucket e edge_buckets 0 of
          None \<Rightarrow> (edge_buckets, last_bucket_index)
        | Some bucket_index \<Rightarrow>
            (edge_buckets[bucket_index := edge_buckets ! bucket_index @ [e]],
             if int bucket_index > last_bucket_index then int bucket_index else last_bucket_index))"

definition fill_buckets :: "VerletClothEdge list \<Rightarrow> VerletClothEdge list list \<times> int" where
  "fill_buckets edges = fold place_edge edges (replicate (length edges * 4) [], - 1)"

definition dummy_edge :: VerletClothEdge where
  "dummy_edge = \<lparr>vertex0 = 0, vertex1 = 0, length_sqr = 100000000, weight0 = 0, compression_weight = 0\<rparr>"

text \<open>The inner loop \<open>for i in range(MAX_EDGES_IN_BUCKET)\<close> for one bucket.\<close>

definition pad_bucket :: "VerletClothEdge list \<Rightarrow> VerletClothEdge list" where
  "pad_bucket bucket =
     map (\<lambda>i. if i < length bucket then bucket ! i else dummy_edge) [0..<MAX_EDGES_IN_BUCKET]"

fun emit_buckets :: "VerletClothEdge list list \<Rightarrow> nat \<Rightarrow> int \<Rightarrow> VerletClothEdge list" where
  "emit_buckets [] bucket_index last_bucket_index = []"
| "emit_buckets (bucket # buckets) bucket_index last_bucket_index =
     (if int bucket_index > last_bucket_index then []
      else pad_bucket bucket @ emit_buckets buckets (bucket_index + 1) last_bucket_index)"

definition bucket_edges :: "VerletClothEdge list \<Rightarrow> VerletClothEdge list" where
  "bucket_edges edges =
     (case fill_buckets edges of (edge_buckets, last_bucket_index) \<Rightarrow>
        emit_buckets edge_buckets 0 last_bucket_index)"

subsection \<open>The reindexing as the specification describes it\<close>

text \<open>
  Pinned vertices first, then the others, each part in mesh order: the mesh index held at
  each cloth index, and the cloth index given to each mesh index.
\<close>

definition cloth_order :: "bool list \<Rightarrow> nat \<Rightarrow> nat list" where
  "cloth_order pinned n = filter (\<lambda>i. pinned ! i) [0..<n] @ filter (\<lambda>i. \<not> pinned ! i) [0..<n]"

definition cloth_index_of :: "bool list \<Rightarrow> nat \<Rightarrow> nat" where
  "cloth_index_of pinned i =
     (if pinned ! i then length (filter (\<lambda>j. pinned ! j) [0..<i])
      else num_pinned_of pinned + length (filter (\<lambda>j. \<not> pinned ! j) [0..<i]))"

text \<open>The state of the loop after the first \<open>i\<close> mesh vertices.\<close>

definition reindex_state_after :: "bool list \<Rightarrow> Vector list \<Rightarrow> nat \<Rightarrow> reindex_state" where
  "reindex_state_after pinned verts i =
     (let n = length verts; k = num_pinned_of pinned;
          ps = filter (\<lambda>j. pinned ! j) [0..<i]; us = filter (\<lambda>j. \<not> pinned ! j) [0..<i]
      in \<lparr>cloth_pin_index = length ps,
          cloth_unpin_index = k + length us,
          cloth_vertices =
            map (\<lambda>j. Some (verts ! j)) ps @ replicate (k - length ps) None @
            map (\<lambda>j. Some (verts ! j)) us @ replicate (n - k - length us) None,
          mesh_to_cloth_vertex_map =
            map (\<lambda>j. Some (cloth_index_of pinned j)) [0..<i] @ replicate (n - i) None,
          cloth_to_mesh_vertex_map =
            map Some ps @ replicate (k - length ps) None @
            map Some us @ replicate (n - k - length us) None\<rparr>)"

text \<open>The example of the specification: five vertices, vertices 1 and 3 pinned.\<close>

definition pin_example_pinned :: "bool list" where
  "pin_example_pinned = pinned_array [0, 1, 0, 1, 0]"

definition pin_example_vertices :: "Vector list" where
  "pin_example_vertices = [Vector 0 0 0, Vector 1 0 0, Vector 2 0 0, Vector 3 0 0, Vector 4 0 0]"

subsection \<open>The edge list as the specification describes it\<close>

text \<open>
  The vertex pairs that get an edge: the sides of the triangles in order, leaving out a
  side whose pair was taken before in either orientation and a side with both ends pinned.
\<close>

fun emitted_pairs :: "bool list \<Rightarrow> (nat \<times> nat) list \<Rightarrow> (nat \<times> nat) list \<Rightarrow> (nat \<times> nat) list" where
  "emitted_pairs pinned seen [] = []"
| "emitted_pairs pinned seen ((a, b) # sides) =
     (if (a, b) \<in> set seen \<or> (b, a) \<in> set seen \<or> (pinned ! a \<and> pinned ! b)
      then emitted_pairs pinned seen sides
      else (a, b) # emitted_pairs pinned (seen @ [(a, b)]) sides)"

text \<open>The edge of a pair of mesh vertices: cloth indices, squared rest length, weights.\<close>

definition cloth_edge_of :: "bool list \<Rightarrow> Vector list \<Rightarrow> nat \<times> nat \<Rightarrow> VerletClothEdge" where
  "cloth_edge_of pinned verts pair =
     (case pair of (a, b) \<Rightarrow>
        \<lparr>vertex0 = cloth_index_of pinned a,
         vertex1 = cloth_index_of pinned b,
         length_sqr = (vx (verts ! a) - vx (verts ! b))\<^sup>2 + (vy (verts ! a) - vy (verts ! b))\<^sup>2
                      + (vz (verts ! a) - vz (verts ! b))\<^sup>2,
         weight0 = (if pinned ! a then 0 else if pinned ! b then 1 else 1 / 2),
         compression_weight = 1 / 4\<rparr>)"

text \<open>An example: a unit square of two triangles, vertices 2 and 3 pinned.\<close>

definition square_pinned :: "bool list" where
  "square_pinned = pinned_array [0, 0, 1, 1]"

definition square_vertices :: "Vector list" where
  "square_vertices = [Vector 0 0 0, Vector 1 0 0, Vector 1 1 0, Vector 0 1 0]"

definition square_triangles :: "(nat \<times> nat \<times> nat) list" where
  "square_triangles = [(0, 1, 2), (0, 2, 3)]"

subsection \<open>The buckets as the specification describes them\<close>

text \<open>A bucket takes an edge when it has spare capacity and no edge in it shares a vertex.\<close>

definition fits :: "VerletClothEdge \<Rightarrow> VerletClothEdge list \<Rightarrow> bool" where
  "fits e bucket \<longleftrightarrow>
     length bucket < MAX_EDGES_IN_BUCKET \<and> (\<forall>x \<in> set bucket. \<not> shares_vertex e x)"

text \<open>The buckets after the first \<open>k\<close> edges have been placed.\<close>

definition buckets_after :: "VerletClothEdge list \<Rightarrow> nat \<Rightarrow> VerletClothEdge list list" where
  "buckets_after edges k = fst (fold place_edge (take k edges) (replicate (length edges * 4) [], - 1))"

text \<open>
  What holds of the buckets and of \<open>last_bucket_index\<close> while the edges \<open>placed\<close> have been
  dealt with: the non-empty buckets are those up to \<open>last_bucket_index\<close>, no bucket is over
  capacity or holds two edges that share a vertex, and the buckets hold exactly \<open>placed\<close>.
\<close>

definition bucket_inv ::
  "nat \<Rightarrow> VerletClothEdge list \<Rightarrow> VerletClothEdge list list \<times> int \<Rightarrow> bool" where
  "bucket_inv N placed st \<longleftrightarrow>
     (case st of (B, last_index) \<Rightarrow>
        length B = N \<and> - 1 \<le> last_index \<and> last_index + 1 \<le> int (length placed) \<and>
        (\<forall>i < N. B ! i \<noteq> [] \<longleftrightarrow> int i \<le> last_index) \<and>
        (\<forall>b \<in> set B. length b \<le> MAX_EDGES_IN_BUCKET \<and>
           (\<forall>i j. i < j \<and> j < length b \<longrightarrow> \<not> shares_vertex (b ! j) (b ! i))) \<and>
        mset (concat B) = mset placed)"

text \<open>Ten edges that meet in vertex 5, so that no two of them fit the same bucket, and one apart.\<close>

definition fan_edge :: "nat \<Rightarrow> VerletClothEdge" where
  "fan_edge v = \<lparr>vertex0 = 5, vertex1 = v, length_sqr = 1, weight0 = 1 / 2, compression_weight = 1 / 4\<rparr>"

definition far_edge :: VerletClothEdge where
  "far_edge = \<lparr>vertex0 = 7, vertex1 = 8, length_sqr = 4, weight0 = 1 / 2, compression_weight = 1 / 4\<rparr>"

subsection \<open>The function as a whole\<close>

text \<open>What \<open>create_frag_env_cloth\<close> reports through the logger.\<close>

datatype log_entry =
    MultipleClothWarning string "string list"
  | ClothTooManyVerticesError nat nat
  | ClothNotAttachedToBoneError string

text \<open>
  The derived cloth data the function fills in. The cloth's own drawable and its display map
  come from host functions (\<open>create_model_xml\<close> and others) that are not part of the sources
  at hand; they are left out of the record.
\<close>

record EnvironmentCloth =
  poly_count :: nat
  vertex_count_high :: nat
  vertex_positions :: "Vector list"
  bb_min :: Vector
  bb_max :: Vector
  edges :: "VerletClothEdge list"
  pinned_vertices_count :: nat
  bone_index :: nat

text \<open>\<open>np.min(vertices, axis=0)\<close> and \<open>np.max\<close>: an empty list raises \<open>ValueError\<close>.\<close>

definition vmin :: "Vector \<Rightarrow> Vector \<Rightarrow> Vector" where
  "vmin a b = Vector (min (vx a) (vx b)) (min (vy a) (vy b)) (min (vz a) (vz b))"

definition vmax :: "Vector \<Rightarrow> Vector \<Rightarrow> Vector" where
  "vmax a b = Vector (max (vx a) (vx b)) (max (vy a) (vy b)) (max (vz a) (vz b))"

definition np_min :: "Vector list \<Rightarrow> py_error + Vector" where
  "np_min vs = (case vs of [] \<Rightarrow> Inl ValueError | v # rest \<Rightarrow> Inr (fold vmin rest v))"

definition np_max :: "Vector list \<Rightarrow> py_error + Vector" where
  "np_max vs = (case vs of [] \<Rightarrow> Inl ValueError | v # rest \<Rightarrow> Inr (fold vmax rest v))"

text \<open>The vertex list must have been filled at every index.\<close>

fun all_filled :: "'a option list \<Rightarrow> py_error + 'a list" where
  "all_filled [] = Inr []"
| "all_filled (None # xs) = Inl TypeError"
| "all_filled (Some x # xs) = (case all_filled xs of Inl e \<Rightarrow> Inl e | Inr ys \<Rightarrow> Inr (x # ys))"

text \<open>
  \<open>CLOTH_MAX_VERTICES\<close> is defined in a module that is not part of the sources at hand: it
  is a parameter. \<open>cloth_objs\<close> is what \<open>get_frag_env_cloth_mesh_objects\<close> returns.
\<close>

definition create_frag_env_cloth ::
  "nat \<Rightarrow> string \<Rightarrow> ClothObj list \<Rightarrow> py_error + log_entry list \<times> EnvironmentCloth option" where
  "create_frag_env_cloth CLOTH_MAX_VERTICES frag_name cloth_objs =
     (case cloth_objs of
        [] \<Rightarrow> Inr ([], None)
      | cloth_obj # other_cloth_objs \<Rightarrow>
          let log1 = (if length cloth_objs > 1
                      then [MultipleClothWarning frag_name (map obj_name other_cloth_objs)] else []);
              num_vertices = length (vertices cloth_obj)
          in if num_vertices > CLOTH_MAX_VERTICES
             then Inr (log1 @ [ClothTooManyVerticesError CLOTH_MAX_VERTICES num_vertices], None)
             else
               let pinned = pinned_array (pinned_values cloth_obj) in
               case reindex_vertices pinned (vertices cloth_obj) of Inl e \<Rightarrow> Inl e | Inr maps \<Rightarrow>
               case build_edges pinned maps (loop_triangles cloth_obj) of Inl e \<Rightarrow> Inl e | Inr es \<Rightarrow>
               case all_filled (cloth_vertices maps) of Inl e \<Rightarrow> Inl e | Inr positions \<Rightarrow>
               case np_min positions of Inl e \<Rightarrow> Inl e | Inr lo \<Rightarrow>
               case np_max positions of Inl e \<Rightarrow> Inl e | Inr hi \<Rightarrow>
               case attached_bone cloth_obj of
                 None \<Rightarrow> Inr (log1 @ [ClothNotAttachedToBoneError (obj_name cloth_obj)], None)
               | Some bone \<Rightarrow>
                   Inr (log1,
                        Some \<lparr>poly_count = length (loop_triangles cloth_obj),
                              vertex_count_high = num_vertices,
                              vertex_positions = positions,
                              bb_min = lo,
                              bb_max = hi,
                              edges = bucket_edges es,
                              pinned_vertices_count = num_pinned_of pinned,
                              bone_index = bone\<rparr>))"

text \<open>
  The end of \<open>create_fragment_xml\<close>: the fragment built so far receives the cloth, if there
  is one. \<open>dummy_physics\<close> stands for what \<open>create_dummy_frag_physics_xml_for_cloth\<close> returns.
\<close>

record ('d, 'p) FragmentXml =
  drawable :: "'d option"
  drawable_is_empty :: bool
  physics :: "'p option"
  cloths :: "EnvironmentCloth list"

definition create_fragment_xml_cloth ::
  "nat \<Rightarrow> 'p \<Rightarrow> string \<Rightarrow> ClothObj list \<Rightarrow> ('d, 'p) FragmentXml \<Rightarrow>
   py_error + log_entry list \<times> ('d, 'p) FragmentXml" where
  "create_fragment_xml_cloth CLOTH_MAX_VERTICES dummy_physics frag_name cloth_objs frag_xml =
     (case create_frag_env_cloth CLOTH_MAX_VERTICES frag_name cloth_objs of
        Inl e \<Rightarrow> Inl e
      | Inr (msgs, None) \<Rightarrow> Inr (msgs, frag_xml)
      | Inr (msgs, Some env_cloth) \<Rightarrow>
          let frag1 = frag_xml\<lparr>cloths := [env_cloth]\<rparr>;
              frag2 = (if drawable_is_empty frag1 then frag1\<lparr>drawable := None\<rparr> else frag1);
              frag3 = (if physics frag2 = None then frag2\<lparr>physics := Some dummy_physics\<rparr> else frag2)
          in Inr (msgs, frag3))"

text \<open>The square as a cloth object, attached to bone 3.\<close>

definition square_obj :: ClothObj where
  "square_obj =
     \<lparr>obj_name = ''flag'', vertices = square_vertices, loop_triangles = square_triangles,
      pinned_values = [0, 0, 1, 1], attached_bone = Some 3\<rparr>"

definition square_frag :: "(unit, unit) FragmentXml" where
  "square_frag = \<lparr>drawable = Some (), drawable_is_empty = False, physics = Some (), cloths = []\<rparr>"

section \<open>Links of a physics LOD (calculate_physics_lod_transforms, yft/yftexport.py)\<close>

text \<open>
  \<open>children_by_group\<close> is a \<open>defaultdict(list)\<close> keyed by the group object. The groups of a
  LOD are distinct objects, hashed by identity, so a group stands for its position in
  \<open>lod_xml.groups\<close>. \<open>lod_xml.groups[child.group_index]\<close> raises \<open>IndexError\<close> out of range,
  and a negative index counts from the end.
\<close>

type_synonym children_dict = "(nat \<times> (nat \<times> PhysicsChild) list) list"

fun children_by_group_loop ::
  "nat \<Rightarrow> (nat \<times> PhysicsChild) list \<Rightarrow> children_dict \<Rightarrow> py_error + children_dict" where
  "children_by_group_loop n [] d = Inr d"
| "children_by_group_loop n ((child_index, child) # rest) d =
     (case py_index n (group_index child) of
        None \<Rightarrow> Inl IndexError
      | Some g \<Rightarrow> children_by_group_loop n rest (defaultdict_append d g (child_index, child)))"

text \<open>
  \<open>children_by_group[group]\<close>: a key that is missing reads as the empty list (the
  \<open>defaultdict\<close> then stores that empty list, which changes no later read).
\<close>

definition children_of_group :: "children_dict \<Rightarrow> nat \<Rightarrow> (nat \<times> PhysicsChild) list" where
  "children_of_group d g = (case dict_get d g of None \<Rightarrow> [] | Some xs \<Rightarrow> xs)"

text \<open>The test for a joint on the bone of a group's first child.\<close>

definition creates_new_link :: "Bone \<Rightarrow> JointLimit list \<Rightarrow> JointLimit list \<Rightarrow> bool" where
  "creates_new_link bone rls tls \<longleftrightarrow>
     (''LimitRotation'' \<in> set (flags bone) \<and> list_ex (\<lambda>rl. bone_id rl = tag bone) rls) \<or>
     (''LimitTranslation'' \<in> set (flags bone) \<and> list_ex (\<lambda>tl. bone_id tl = tag bone) tls)"

text \<open>
  The two lists the loop over the groups builds: \<open>links\<close>, each link the groups appended to
  it, and \<open>link_index_by_group\<close>.
\<close>

record link_state =
  links :: "nat list list"
  link_index_by_group :: "int list"

text \<open>
  The choice of \<open>link_index\<close> for one group. \<open>children_by_group[group][0]\<close> raises
  \<open>IndexError\<close> for a group without children, \<open>next(...)\<close> raises \<open>StopIteration\<close> when no
  bone has the tag, and \<open>link_index_by_group[group.parent_index]\<close> is a list index.
\<close>

definition choose_link ::
  "Bone list \<Rightarrow> JointLimit list \<Rightarrow> JointLimit list \<Rightarrow> children_dict \<Rightarrow>
   nat \<Rightarrow> PhysicsGroup \<Rightarrow> link_state \<Rightarrow> py_error + int \<times> link_state" where
  "choose_link bones_xml rls tls children_by_group group_idx grp st =
     (if parent_index grp \<noteq> 255 then
        (case children_of_group children_by_group group_idx of
           [] \<Rightarrow> Inl IndexError
         | (_, first_child) # _ \<Rightarrow>
             (case find (\<lambda>b. tag b = bone_tag first_child) bones_xml of
                None \<Rightarrow> Inl StopIteration
              | Some bone \<Rightarrow>
                  if creates_new_link bone rls tls
                  then Inr (int (length (links st)), st\<lparr>links := links st @ [[]]\<rparr>)
                  else (case py_get (link_index_by_group st) (parent_index grp) of
                          Inl e \<Rightarrow> Inl e
                        | Inr link_index \<Rightarrow> Inr (link_index, st))))
      else Inr (0, st))"

text \<open>
  One iteration: \<open>links[link_index].append(group)\<close>, again a list index, and
  \<open>link_index_by_group[group_index] = link_index\<close>.
\<close>

definition link_step ::
  "Bone list \<Rightarrow> JointLimit list \<Rightarrow> JointLimit list \<Rightarrow> children_dict \<Rightarrow>
   nat \<times> PhysicsGroup \<Rightarrow> link_state \<Rightarrow> py_error + link_state" where
  "link_step bones_xml rls tls children_by_group ig st =
     (case ig of (group_idx, grp) \<Rightarrow>
        (case choose_link bones_xml rls tls children_by_group group_idx grp st of
           Inl e \<Rightarrow> Inl e
         | Inr (link_index, st1) \<Rightarrow>
             (case py_index (length (links st1)) link_index of
                None \<Rightarrow> Inl IndexError
              | Some l \<Rightarrow>
                  Inr \<lparr>links = (links st1)[l := links st1 ! l @ [group_idx]],
                       link_index_by_group = (link_index_by_group st1)[group_idx := link_index]\<rparr>)))"

fun links_loop ::
  "Bone list \<Rightarrow> JointLimit list \<Rightarrow> JointLimit list \<Rightarrow> children_dict \<Rightarrow>
   (nat \<times> PhysicsGroup) list \<Rightarrow> link_state \<Rightarrow> py_error + link_state" where
  "links_loop bones_xml rls tls children_by_group [] st = Inr st"
| "links_loop bones_xml rls tls children_by_group (ig # rest) st =
     (case link_step bones_xml rls tls children_by_group ig st of
        Inl e \<Rightarrow> Inl e
      | Inr st' \<Rightarrow> links_loop bones_xml rls tls children_by_group rest st')"

text \<open>
  Lines 523-552 of \<open>calculate_physics_lod_transforms\<close>: the children of each group, then
  the links.
\<close>

definition physics_links :: "Fragment \<Rightarrow> py_error + children_dict \<times> link_state" where
  "physics_links frag_xml =
     (let lod_xml = lod1 frag_xml in
      case children_by_group_loop (length (groups lod_xml)) (enumerate 0 (children lod_xml)) [] of
        Inl e \<Rightarrow> Inl e
      | Inr children_by_group \<Rightarrow>
          (case links_loop (bones frag_xml) (rotation_limits frag_xml) (translation_limits frag_xml)
                  children_by_group (enumerate 0 (groups lod_xml))
                  \<lparr>links = [[]],
                   link_index_by_group = replicate (length (groups lod_xml)) (- 1)\<rparr> of
             Inl e \<Rightarrow> Inl e
           | Inr st \<Rightarrow> Inr (children_by_group, st)))"

subsection \<open>The partition as the claim describes it\<close>

text \<open>
  The bone backing the first child of a group, whether that bone has a joint with a
  configured limit, and the number of groups among the first \<open>k\<close> that have a parent and
  such a joint.
\<close>

definition first_child_bone :: "Fragment \<Rightarrow> nat \<Rightarrow> Bone option" where
  "first_child_bone frag_xml g =
     (case find (\<lambda>c. group_index c = int g) (children (lod1 frag_xml)) of
        None \<Rightarrow> None
      | Some c \<Rightarrow> find (\<lambda>b. tag b = bone_tag c) (bones frag_xml))"

definition has_joint :: "Fragment \<Rightarrow> nat \<Rightarrow> bool" where
  "has_joint frag_xml g \<longleftrightarrow>
     (case first_child_bone frag_xml g of
        None \<Rightarrow> False
      | Some b \<Rightarrow> creates_new_link b (rotation_limits frag_xml) (translation_limits frag_xml))"

definition has_parent :: "Fragment \<Rightarrow> nat \<Rightarrow> bool" where
  "has_parent frag_xml g \<longleftrightarrow> parent_index (groups (lod1 frag_xml) ! g) \<noteq> 255"

definition starts_link :: "Fragment \<Rightarrow> nat \<Rightarrow> bool" where
  "starts_link frag_xml g \<longleftrightarrow> has_parent frag_xml g \<and> has_joint frag_xml g"

definition links_before :: "Fragment \<Rightarrow> nat \<Rightarrow> nat" where
  "links_before frag_xml k = length (filter (starts_link frag_xml) [0..<k])"

text \<open>
  Examples. A body with a door on a hinge and a handle on the door: three groups, the door
  with a rotation limit. And four groups in which the third names the fourth as its parent.
\<close>

definition link_example_child :: "int \<Rightarrow> int \<Rightarrow> PhysicsChild" where
  "link_example_child g t =
     \<lparr>group_index = g, bone_tag = t, pristine_mass = 1, inertia_tensor = Vector4 0 0 0 0\<rparr>"

definition link_example_lod :: "PhysicsGroup list \<Rightarrow> PhysicsChild list \<Rightarrow> PhysicsLOD" where
  "link_example_lod gs cs =
     \<lparr>archetype = \<lparr>mass = 0, mass_inv = 0, arch_inertia_tensor = Vector 0 0 0,
                   arch_inertia_tensor_inv = Vector 0 0 0,
                   bounds = replicate (length cs) None\<rparr>,
      groups = gs,
      children = cs,
      transforms = [],
      position_offset = Vector 0 0 0,
      unknown_40 = Vector 0 0 0,
      unknown_50 = Vector 0 0 0\<rparr>"

definition door_frag :: Fragment where
  "door_frag =
     \<lparr>lod1 = link_example_lod
        [\<lparr>name = ''body'', parent_index = 255\<rparr>,
         \<lparr>name = ''door'', parent_index = 0\<rparr>,
         \<lparr>name = ''handle'', parent_index = 1\<rparr>]
        [link_example_child 0 10, link_example_child 1 11, link_example_child 2 12],
      bones = [\<lparr>tag = 10, flags = []\<rparr>, \<lparr>tag = 11, flags = [''LimitRotation'']\<rparr>,
               \<lparr>tag = 12, flags = []\<rparr>],
      rotation_limits = [\<lparr>bone_id = 11\<rparr>],
      translation_limits = []\<rparr>"

definition forward_parent_frag :: Fragment where
  "forward_parent_frag =
     \<lparr>lod1 = link_example_lod
        [\<lparr>name = ''body'', parent_index = 255\<rparr>,
         \<lparr>name = ''door'', parent_index = 0\<rparr>,
         \<lparr>name = ''handle'', parent_index = 3\<rparr>,
         \<lparr>name = ''roof'', parent_index = 255\<rparr>]
        [link_example_child 0 10, link_example_child 1 11, link_example_child 2 12,
         link_example_child 3 13],
      bones = [\<lparr>tag = 10, flags = []\<rparr>, \<lparr>tag = 11, flags = [''LimitRotation'']\<rparr>,
               \<lparr>tag = 12, flags = []\<rparr>, \<lparr>tag = 13, flags = []\<rparr>],
      rotation_limits = [\<lparr>bone_id = 11\<rparr>],
      translation_limits = []\<rparr>"

text \<open>
  The LODs the partition is stated for: the group index of every child is the index of a
  group, every group has a child, the bone tag of every child is the tag of a bone, and the
  parent index of every group is 255 or the index of an earlier group.
\<close>

definition links_wf :: "Fragment \<Rightarrow> bool" where
  "links_wf frag_xml \<longleftrightarrow>
     (\<forall>c\<in>set (children (lod1 frag_xml)).
        0 \<le> group_index c \<and> group_index c < int (length (groups (lod1 frag_xml)))) \<and>
     (\<forall>g<length (groups (lod1 frag_xml)).
        \<exists>c\<in>set (children (lod1 frag_xml)). group_index c = int g) \<and>
     (\<forall>c\<in>set (children (lod1 frag_xml)). \<exists>b\<in>set (bones frag_xml). tag b = bone_tag c) \<and>
     (\<forall>g<length (groups (lod1 frag_xml)).
        parent_index (groups (lod1 frag_xml) ! g) = 255 \<or>
        (0 \<le> parent_index (groups (lod1 frag_xml) ! g) \<and>
         parent_index (groups (lod1 frag_xml) ! g) < int g))"

text \<open>
  The link index of a group by the three rules of the claim, and what holds of the two lists
  after the first \<open>k\<close> groups.
\<close>

definition link_rule :: "Fragment \<Rightarrow> int list \<Rightarrow> nat \<Rightarrow> bool" where
  "link_rule frag_xml lbg g \<longleftrightarrow>
     (\<not> has_parent frag_xml g \<longrightarrow> lbg ! g = 0) \<and>
     (starts_link frag_xml g \<longrightarrow> lbg ! g = int (Suc (links_before frag_xml g))) \<and>
     (has_parent frag_xml g \<and> \<not> has_joint frag_xml g \<longrightarrow>
        lbg ! g = lbg ! nat (parent_index (groups (lod1 frag_xml) ! g)))"

definition links_inv :: "Fragment \<Rightarrow> nat \<Rightarrow> link_state \<Rightarrow> bool" where
  "links_inv frag_xml k st \<longleftrightarrow>
     length (link_index_by_group st) = length (groups (lod1 frag_xml)) \<and>
     length (links st) = Suc (links_before frag_xml k) \<and>
     (\<forall>g<k. 0 \<le> link_index_by_group st ! g \<and>
            link_index_by_group st ! g \<le> int (links_before frag_xml (Suc g))) \<and>
     (\<forall>g<k. link_rule frag_xml (link_index_by_group st) g) \<and>
     (\<forall>l<length (links st).
        links st ! l = filter (\<lambda>g. link_index_by_group st ! g = int l) [0..<k])"

section \<open>Link centres of gravity and child transforms (calculate_physics_lod_transforms)\<close>

text \<open>More of mathutils: the product of two 4x4 matrices, a translation matrix, \<open>-v\<close>, and
  \<open>m.col[3].zero()\<close>.\<close>

fun row_times :: "row4 \<Rightarrow> Matrix \<Rightarrow> row4" where
  "row_times (a0, a1, a2, a3)
     (Matrix (b00, b01, b02, b03) (b10, b11, b12, b13) (b20, b21, b22, b23) (b30, b31, b32, b33)) =
     (a0 * b00 + a1 * b10 + a2 * b20 + a3 * b30,
      a0 * b01 + a1 * b11 + a2 * b21 + a3 * b31,
      a0 * b02 + a1 * b12 + a2 * b22 + a3 * b32,
      a0 * b03 + a1 * b13 + a2 * b23 + a3 * b33)"

fun matmul :: "Matrix \<Rightarrow> Matrix \<Rightarrow> Matrix" where
  "matmul (Matrix r0 r1 r2 r3) m =
     Matrix (row_times r0 m) (row_times r1 m) (row_times r2 m) (row_times r3 m)"

definition Matrix_Translation :: "Vector \<Rightarrow> Matrix" where
  "Matrix_Translation v = Matrix (1, 0, 0, vx v) (0, 1, 0, vy v) (0, 0, 1, vz v) (0, 0, 0, 1)"

definition vneg :: "Vector \<Rightarrow> Vector" where
  "vneg v = Vector (- vx v) (- vy v) (- vz v)"

fun zero_col3 :: "Matrix \<Rightarrow> Matrix" where
  "zero_col3 (Matrix (a0, a1, a2, a3) (b0, b1, b2, b3) (c0, c1, c2, c3) (d0, d1, d2, d3)) =
     Matrix (a0, a1, a2, 0) (b0, b1, b2, 0) (c0, c1, c2, 0) (d0, d1, d2, 0)"

text \<open>
  The centre of gravity of a child: that of its bound, or the zero vector when the bound is
  \<open>None\<close>.
\<close>

definition child_center_of :: "Bound option \<Rightarrow> Vector" where
  "child_center_of bound_xml =
     (case bound_xml of Some b \<Rightarrow> bound_center b | None \<Rightarrow> Vector 0 0 0)"

text \<open>
  The innermost loop, over the children of one group: it adds to the centre of gravity of
  the link and to \<open>link_total_mass\<close>. \<open>bounds.children[child_index]\<close> is a list index.
\<close>

fun link_children_loop ::
  "Bound option list \<Rightarrow> (nat \<times> PhysicsChild) list \<Rightarrow> Vector \<times> real \<Rightarrow> py_error + Vector \<times> real" where
  "link_children_loop bs [] acc = Inr acc"
| "link_children_loop bs ((child_index, child) # rest) acc =
     (case acc of (cg, link_total_mass) \<Rightarrow>
        if child_index < length bs
        then link_children_loop bs rest
               (cg + vscale (child_center_of (bs ! child_index)) (pristine_mass child),
                link_total_mass + pristine_mass child)
        else Inl IndexError)"

text \<open>The loop over the groups of one link.\<close>

fun link_groups_loop ::
  "Bound option list \<Rightarrow> children_dict \<Rightarrow> nat list \<Rightarrow> Vector \<times> real \<Rightarrow> py_error + Vector \<times> real" where
  "link_groups_loop bs d [] acc = Inr acc"
| "link_groups_loop bs d (g # rest) acc =
     (case link_children_loop bs (children_of_group d g) acc of
        Inl e \<Rightarrow> Inl e
      | Inr acc' \<Rightarrow> link_groups_loop bs d rest acc')"

text \<open>One link: the sums from zero, then the division by \<open>link_total_mass\<close>.\<close>

definition link_center_of_gravity ::
  "Bound option list \<Rightarrow> children_dict \<Rightarrow> nat list \<Rightarrow> py_error + Vector" where
  "link_center_of_gravity bs d gs =
     (case link_groups_loop bs d gs (Vector 0 0 0, 0) of
        Inl e \<Rightarrow> Inl e
      | Inr (cg, link_total_mass) \<Rightarrow> vdiv cg link_total_mass)"

text \<open>The loop over the links: \<open>links_center_of_gravity\<close>, one entry per link.\<close>

fun links_cg_loop ::
  "Bound option list \<Rightarrow> children_dict \<Rightarrow> nat list list \<Rightarrow> py_error + Vector list" where
  "links_cg_loop bs d [] = Inr []"
| "links_cg_loop bs d (gs # rest) =
     (case link_center_of_gravity bs d gs of
        Inl e \<Rightarrow> Inl e
      | Inr cg \<Rightarrow>
          (case links_cg_loop bs d rest of
             Inl e \<Rightarrow> Inl e
           | Inr cgs \<Rightarrow> Inr (cg # cgs)))"

text \<open>
  The transform of one child: the offset from its bound to the centre of gravity of its
  link, with the fourth column zeroed.
\<close>

definition child_transform :: "Vector \<Rightarrow> Bound option \<Rightarrow> Matrix" where
  "child_transform link_center bound_xml =
     zero_col3
       (case bound_xml of
          Some b \<Rightarrow>
            transposed (matmul (Matrix_Translation (vneg link_center))
                          (transposed (composite_transform b)))
        | None \<Rightarrow> Matrix_Identity)"

fun transforms_loop ::
  "Vector list \<Rightarrow> int list \<Rightarrow> Bound option list \<Rightarrow> (nat \<times> PhysicsChild) list \<Rightarrow>
   py_error + Matrix list" where
  "transforms_loop cgs lbg bs [] = Inr []"
| "transforms_loop cgs lbg bs ((child_index, child) # rest) =
     (case py_get lbg (group_index child) of
        Inl e \<Rightarrow> Inl e
      | Inr link_index \<Rightarrow>
          (case py_get cgs link_index of
             Inl e \<Rightarrow> Inl e
           | Inr link_center \<Rightarrow>
               if child_index < length bs
               then (case transforms_loop cgs lbg bs rest of
                       Inl e \<Rightarrow> Inl e
                     | Inr ts \<Rightarrow> Inr (child_transform link_center (bs ! child_index) # ts))
               else Inl IndexError))"

text \<open>
  The whole function. It changes \<open>frag_xml.physics.lod1\<close> in place; the model returns the
  fragment with the changed LOD. Nothing of the LOD is written before the centres of
  gravity of all links are there.
\<close>

definition calculate_physics_lod_transforms :: "Fragment \<Rightarrow> py_error + Fragment" where
  "calculate_physics_lod_transforms frag_xml =
     (let lod_xml = lod1 frag_xml; bs = bounds (archetype lod_xml) in
      case physics_links frag_xml of
        Inl e \<Rightarrow> Inl e
      | Inr (children_by_group, st) \<Rightarrow>
          (case links_cg_loop bs children_by_group (links st) of
             Inl e \<Rightarrow> Inl e
           | Inr [] \<Rightarrow> Inl IndexError
           | Inr (root_cg # other_cgs) \<Rightarrow>
               let links_center_of_gravity = (root_cg + unknown_50 lod_xml) # other_cgs;
                   root_cg_offset = links_center_of_gravity ! 0
               in case transforms_loop links_center_of_gravity (link_index_by_group st) bs
                         (enumerate 0 (children lod_xml)) of
                    Inl e \<Rightarrow> Inl e
                  | Inr ts \<Rightarrow>
                      Inr (frag_xml\<lparr>lod1 := lod_xml
                             \<lparr>position_offset := root_cg_offset,
                              unknown_40 := root_cg_offset,
                              transforms := transforms lod_xml @ ts\<rparr>\<rparr>)))"

subsection \<open>The centre of gravity as the claim describes it\<close>

text \<open>
  The children that belong to a group of link \<open>l\<close>, by their index; the total mass of the
  link; the sum of centre times mass; and their quotient.
\<close>

definition in_link :: "Fragment \<Rightarrow> link_state \<Rightarrow> nat \<Rightarrow> PhysicsChild \<Rightarrow> bool" where
  "in_link frag_xml st l child \<longleftrightarrow>
     (case py_index (length (groups (lod1 frag_xml))) (group_index child) of
        None \<Rightarrow> False
      | Some g \<Rightarrow> g \<in> set (links st ! l))"

definition link_children :: "Fragment \<Rightarrow> link_state \<Rightarrow> nat \<Rightarrow> nat list" where
  "link_children frag_xml st l =
     filter (\<lambda>i. in_link frag_xml st l (children (lod1 frag_xml) ! i))
       [0..<length (children (lod1 frag_xml))]"

definition link_mass :: "Fragment \<Rightarrow> link_state \<Rightarrow> nat \<Rightarrow> real" where
  "link_mass frag_xml st l =
     (\<Sum>i\<leftarrow>link_children frag_xml st l. pristine_mass (children (lod1 frag_xml) ! i))"

definition link_weighted_sum :: "Fragment \<Rightarrow> link_state \<Rightarrow> nat \<Rightarrow> Vector" where
  "link_weighted_sum frag_xml st l =
     (\<Sum>i\<leftarrow>link_children frag_xml st l.
        vscale (child_center_of (bounds (archetype (lod1 frag_xml)) ! i))
          (pristine_mass (children (lod1 frag_xml) ! i)))"

definition link_cg :: "Fragment \<Rightarrow> link_state \<Rightarrow> nat \<Rightarrow> Vector" where
  "link_cg frag_xml st l =
     Vector (vx (link_weighted_sum frag_xml st l) / link_mass frag_xml st l)
            (vy (link_weighted_sum frag_xml st l) / link_mass frag_xml st l)
            (vz (link_weighted_sum frag_xml st l) / link_mass frag_xml st l)"

text \<open>
  Examples. Two children of mass 1 in one root group, their bounds centred at \<open>(0, 0, 0)\<close>
  and \<open>(2, 0, 0)\<close>, with the offset \<open>(0, 0, 1)\<close>. And a body of mass 1 with a door of mass 0
  on a hinge.
\<close>

definition cg_example_bound :: "Vector \<Rightarrow> Bound option" where
  "cg_example_bound c = Some \<lparr>composite_transform = Matrix_Identity, sphere_center = c\<rparr>"

definition cg_example_child :: "int \<Rightarrow> int \<Rightarrow> real \<Rightarrow> PhysicsChild" where
  "cg_example_child g t m =
     \<lparr>group_index = g, bone_tag = t, pristine_mass = m, inertia_tensor = Vector4 0 0 0 0\<rparr>"

definition cg_example_frag :: Fragment where
  "cg_example_frag =
     \<lparr>lod1 =
        \<lparr>archetype = \<lparr>mass = 0, mass_inv = 0, arch_inertia_tensor = Vector 0 0 0,
                      arch_inertia_tensor_inv = Vector 0 0 0,
                      bounds = [cg_example_bound (Vector 0 0 0), cg_example_bound (Vector 2 0 0)]\<rparr>,
         groups = [\<lparr>name = ''body'', parent_index = 255\<rparr>],
         children = [cg_example_child 0 10 1, cg_example_child 0 10 1],
         transforms = [],
         position_offset = Vector 0 0 0,
         unknown_40 = Vector 0 0 0,
         unknown_50 = Vector 0 0 1\<rparr>,
      bones = [\<lparr>tag = 10, flags = []\<rparr>],
      rotation_limits = [],
      translation_limits = []\<rparr>"

definition massless_door_frag :: Fragment where
  "massless_door_frag =
     \<lparr>lod1 =
        \<lparr>archetype = \<lparr>mass = 0, mass_inv = 0, arch_inertia_tensor = Vector 0 0 0,
                      arch_inertia_tensor_inv = Vector 0 0 0,
                      bounds = [cg_example_bound (Vector 0 0 0), cg_example_bound (Vector 2 0 0)]\<rparr>,
         groups = [\<lparr>name = ''body'', parent_index = 255\<rparr>, \<lparr>name = ''door'', parent_index = 0\<rparr>],
         children = [cg_example_child 0 10 1, cg_example_child 1 11 0],
         transforms = [],
         position_offset = Vector 0 0 0,
         unknown_40 = Vector 0 0 0,
         unknown_50 = Vector 0 0 1\<rparr>,
      bones = [\<lparr>tag = 10, flags = []\<rparr>, \<lparr>tag = 11, flags = [''LimitRotation'']\<rparr>],
      rotation_limits = [\<lparr>bone_id = 11\<rparr>],
      translation_limits = []\<rparr>"

text \<open>
  What holds of the two lists after the first \<open>k\<close> groups in every LOD: there is a link, no
  link holds a group twice or a group that is still to come, and every link index written
  so far is an index into \<open>links\<close>.
\<close>

definition links_ok :: "nat \<Rightarrow> link_state \<Rightarrow> bool" where
  "links_ok k st \<longleftrightarrow>
     links st \<noteq> [] \<and>
     (\<forall>gs\<in>set (links st). distinct gs \<and> (\<forall>g\<in>set gs. g < k)) \<and>
     (\<forall>link_index\<in>set (link_index_by_group st).
        py_index (length (links st)) link_index \<noteq> None)"

section \<open>Polymorphic lists in the drawable schema (resources/drawable.py)\<close>

text \<open>
  An XML element as the two parsers use it: its tag (\<open>element_tag\<close>, the name \<open>tag\<close>
  being that of a bone's tag in the fragment model), its attributes and its child elements.
  \<open>element.iter()\<close> yields the element itself and then all its descendants in document
  order.
\<close>

datatype xml = Element (element_tag: string) (attrib: "(string \<times> string) list") (subelements: "xml list")

fun iter :: "xml \<Rightarrow> xml list" where
  "iter (Element t a cs) = Element t a cs # concat (map iter cs)"

text \<open>\<open>child.get('type')\<close>, which is \<open>None\<close> when \<open>'type' in child.attrib\<close> is false.\<close>

definition get_type :: "xml \<Rightarrow> string option" where
  "get_type child = map_of (attrib child) ''type''"

subsection \<open>Shader parameters\<close>

text \<open>
  The three parameter variants. Their own \<open>from_xml\<close> is inherited from the element model,
  which is not part of the sources at hand: each is a parameter that returns what it parsed
  or raises.
\<close>

datatype 'p ShaderParameter =
    TextureShaderParameter 'p
  | VectorShaderParameter 'p
  | ArrayShaderParameterProperty 'p

text \<open>The body of the loop: three independent tests on the type, each appending one item.\<close>

definition parameters_step ::
  "(xml \<Rightarrow> py_error + 'p) \<Rightarrow> (xml \<Rightarrow> py_error + 'p) \<Rightarrow> (xml \<Rightarrow> py_error + 'p) \<Rightarrow>
   xml \<Rightarrow> 'p ShaderParameter list \<Rightarrow> py_error + 'p ShaderParameter list" where
  "parameters_step texture_from_xml vector_from_xml array_from_xml child v =
     (case get_type child of
        None \<Rightarrow> Inr v
      | Some param_type \<Rightarrow>
          (case (if param_type = ''Texture''
                 then (case texture_from_xml child of
                         Inl e \<Rightarrow> Inl e | Inr p \<Rightarrow> Inr (v @ [TextureShaderParameter p]))
                 else Inr v) of
             Inl e \<Rightarrow> Inl e
           | Inr v1 \<Rightarrow>
               (case (if param_type = ''Vector''
                      then (case vector_from_xml child of
                              Inl e \<Rightarrow> Inl e | Inr p \<Rightarrow> Inr (v1 @ [VectorShaderParameter p]))
                      else Inr v1) of
                  Inl e \<Rightarrow> Inl e
                | Inr v2 \<Rightarrow>
                    (if param_type = ''Array''
                     then (case array_from_xml child of
                             Inl e \<Rightarrow> Inl e | Inr p \<Rightarrow> Inr (v2 @ [ArrayShaderParameterProperty p]))
                     else Inr v2))))"

fun parameters_loop ::
  "(xml \<Rightarrow> py_error + 'p) \<Rightarrow> (xml \<Rightarrow> py_error + 'p) \<Rightarrow> (xml \<Rightarrow> py_error + 'p) \<Rightarrow>
   xml list \<Rightarrow> 'p ShaderParameter list \<Rightarrow> py_error + 'p ShaderParameter list" where
  "parameters_loop t v a [] items = Inr items"
| "parameters_loop t v a (child # rest) items =
     (case parameters_step t v a child items of
        Inl e \<Rightarrow> Inl e
      | Inr items' \<Rightarrow> parameters_loop t v a rest items')"

definition ParametersListProperty_from_xml ::
  "(xml \<Rightarrow> py_error + 'p) \<Rightarrow> (xml \<Rightarrow> py_error + 'p) \<Rightarrow> (xml \<Rightarrow> py_error + 'p) \<Rightarrow>
   xml \<Rightarrow> py_error + 'p ShaderParameter list" where
  "ParametersListProperty_from_xml t v a element = parameters_loop t v a (iter element) []"

subsection \<open>The bound of a drawable\<close>

datatype bound_class =
    BoundBox | BoundSphere | BoundCapsule | BoundCylinder
  | BoundDisc | BoundCloth | BoundGeometry | BoundGeometryBVH

text \<open>
  A parsed bound: its class, its \<open>tag_name\<close> and what the class's \<open>from_xml\<close> (a parameter,
  as above) made of the node. \<open>Drawable.from_xml\<close> sets the tag name to \<open>Bounds\<close> after
  every typed node as soon as there is a bound (a bound object is truthy); the tag name a
  bound has before that assignment is never read and is written here as the tag of the node
  it was parsed from.
\<close>

record 'b ParsedBound =
  bound_kind :: bound_class
  tag_name :: string
  content :: 'b

text \<open>
  The drawable as parsed: what the inherited \<open>from_xml\<close> (a parameter) built from the
  element, and the bound, which \<open>__init__\<close> sets to \<open>None\<close>.
\<close>

record ('d, 'b) Drawable =
  base :: 'd
  bound :: "'b ParsedBound option"

text \<open>\<open>child.tag = 'Item'\<close>.\<close>

fun set_tag :: "string \<Rightarrow> xml \<Rightarrow> xml" where
  "set_tag t (Element _ a cs) = Element t a cs"

text \<open>The \<open>elif\<close> chain: the class for a type, if the type is one of the eight.\<close>

definition bound_class_of :: "string \<Rightarrow> bound_class option" where
  "bound_class_of bound_type =
     (if bound_type = ''Box'' then Some BoundBox
      else if bound_type = ''Sphere'' then Some BoundSphere
      else if bound_type = ''Capsule'' then Some BoundCapsule
      else if bound_type = ''Cylinder'' then Some BoundCylinder
      else if bound_type = ''Disc'' then Some BoundDisc
      else if bound_type = ''Cloth'' then Some BoundCloth
      else if bound_type = ''Geometry'' then Some BoundGeometry
      else if bound_type = ''GeometryBVH'' then Some BoundGeometryBVH
      else None)"

definition bound_step ::
  "(bound_class \<Rightarrow> xml \<Rightarrow> py_error + 'b) \<Rightarrow> xml \<Rightarrow> 'b ParsedBound option \<Rightarrow>
   py_error + 'b ParsedBound option" where
  "bound_step bound_from_xml child b =
     (case get_type child of
        None \<Rightarrow> Inr b
      | Some bound_type \<Rightarrow>
          (case (case bound_class_of bound_type of
                   None \<Rightarrow> Inr b
                 | Some cls \<Rightarrow>
                     (case bound_from_xml cls (set_tag ''Item'' child) of
                        Inl e \<Rightarrow> Inl e
                      | Inr c \<Rightarrow> Inr (Some \<lparr>bound_kind = cls, tag_name = ''Item'', content = c\<rparr>))) of
             Inl e \<Rightarrow> Inl e
           | Inr None \<Rightarrow> Inr None
           | Inr (Some pb) \<Rightarrow> Inr (Some (pb\<lparr>tag_name := ''Bounds''\<rparr>))))"

fun bound_loop ::
  "(bound_class \<Rightarrow> xml \<Rightarrow> py_error + 'b) \<Rightarrow> xml list \<Rightarrow> 'b ParsedBound option \<Rightarrow>
   py_error + 'b ParsedBound option" where
  "bound_loop p [] b = Inr b"
| "bound_loop p (child # rest) b =
     (case bound_step p child b of Inl e \<Rightarrow> Inl e | Inr b' \<Rightarrow> bound_loop p rest b')"

definition Drawable_from_xml ::
  "(xml \<Rightarrow> py_error + 'd) \<Rightarrow> (bound_class \<Rightarrow> xml \<Rightarrow> py_error + 'b) \<Rightarrow> xml \<Rightarrow>
   py_error + ('d, 'b) Drawable" where
  "Drawable_from_xml super_from_xml bound_from_xml element =
     (case super_from_xml element of
        Inl e \<Rightarrow> Inl e
      | Inr new \<Rightarrow>
          (case bound_loop bound_from_xml (iter element) None of
             Inl e \<Rightarrow> Inl e
           | Inr b \<Rightarrow> Inr \<lparr>base = new, bound = b\<rparr>))"

subsection \<open>The nodes that count\<close>

definition param_type_known :: "xml \<Rightarrow> bool" where
  "param_type_known child \<longleftrightarrow>
     get_type child = Some ''Texture'' \<or> get_type child = Some ''Vector'' \<or>
     get_type child = Some ''Array''"

definition bound_type_known :: "xml \<Rightarrow> bool" where
  "bound_type_known child \<longleftrightarrow>
     (case get_type child of None \<Rightarrow> False | Some bound_type \<Rightarrow>
        bound_type \<in> {''Box'', ''Sphere'', ''Capsule'', ''Cylinder'', ''Disc'', ''Cloth'',
                        ''Geometry'', ''GeometryBVH''})"

text \<open>
  Examples: a parameter list with a parameter of type \<open>Sampler\<close>, a drawable whose bound
  has type \<open>Polyhedron\<close>, and a drawable whose bound is a composite of one box.
\<close>

definition parameters_xml :: xml where
  "parameters_xml =
     Element ''Parameters'' []
       [Element ''Item'' [(''name'', ''DiffuseSampler''), (''type'', ''Texture'')] [],
        Element ''Item'' [(''name'', ''Noise''), (''type'', ''Sampler'')] [],
        Element ''Item'' [(''name'', ''Tint''), (''type'', ''Vector'')] []]"

definition unknown_bound_xml :: xml where
  "unknown_bound_xml =
     Element ''Drawable'' []
       [Element ''Name'' [] [],
        Element ''Bounds'' [(''type'', ''Polyhedron'')] []]"

definition composite_bound_xml :: xml where
  "composite_bound_xml =
     Element ''Drawable'' []
       [Element ''Name'' [] [],
        Element ''Bounds'' [(''type'', ''Composite'')]
          [Element ''Children'' []
             [Element ''Item'' [(''type'', ''Box'')] []]]]"

text \<open>Parsers for the examples: each returns the \<open>name\<close> attribute, or the tag, of its node.\<close>

definition name_of :: "xml \<Rightarrow> py_error + string" where
  "name_of x = (case map_of (attrib x) ''name'' of None \<Rightarrow> Inl KeyError | Some n \<Rightarrow> Inr n)"

definition tag_of :: "xml \<Rightarrow> py_error + string" where
  "tag_of x = Inr (element_tag x)"


text \<open>
  What holds of the bound between two iterations of the loop in \<open>Drawable.from_xml\<close>: there
  is none, or its tag name is \<open>Bounds\<close>.
\<close>

definition bounds_tagged :: "'b ParsedBound option \<Rightarrow> bool" where
  "bounds_tagged b \<longleftrightarrow> (case b of None \<Rightarrow> True | Some pb \<Rightarrow> tag_name pb = ''Bounds'')"

section \<open>Properties of the navigation mesh attributes\<close>

lemma upt_8: "[0..<8] = [0, 1, 2, 3, 4, 5, 6, 7::nat]"
  by (simp add: upt_rec)

lemma byte_low_of_pair:
  assumes "0 \<le> a" "a < 256"
  shows "((a::int) OR push_bit 8 b) AND 255 = a"
proof -
  have m: "(255::int) = mask 8"
    by (simp add: mask_eq_exp_minus_1)
  have "take_bit 8 a = a"
    using assms by (simp add: take_bit_int_eq_self)
  moreover have "take_bit 8 (a OR push_bit 8 b) = take_bit 8 a"
    by (simp add: take_bit_push_bit)
  ultimately show ?thesis
    unfolding m by (simp add: take_bit_eq_mask)
qed

lemma byte_high_of_pair:
  assumes "0 \<le> a" "a < 256" "0 \<le> b" "b < 256"
  shows "drop_bit 8 ((a::int) OR push_bit 8 b) AND 255 = b"
proof -
  have m: "(255::int) = mask 8"
    by (simp add: mask_eq_exp_minus_1)
  have "drop_bit 8 a = 0"
    using assms by (simp add: drop_bit_eq_div)
  then have "drop_bit 8 (a OR push_bit 8 b) = b"
    by (simp add: bit_eq_iff bit_simps)
  moreover have "take_bit 8 b = b"
    using assms by (simp add: take_bit_int_eq_self)
  ultimately show ?thesis
    unfolding m by (simp add: take_bit_eq_mask)
qed

lemma pair_of_bytes_bound:
  assumes "0 \<le> a" "a < 256" "0 \<le> b" "b < 256"
  shows "0 \<le> ((a::int) OR push_bit 8 b) \<and> (a OR push_bit 8 b) < 65536"
proof -
  have "a OR push_bit 8 b < 2 ^ 16"
    by (rule OR_upper) (use assms in \<open>simp_all add: push_bit_eq_mult\<close>)
  then show ?thesis
    using assms by simp
qed

lemma int_0_to_3: "0 \<le> (s::int) \<Longrightarrow> s \<le> 3 \<Longrightarrow> s = 0 \<or> s = 1 \<or> s = 2 \<or> s = 3"
  by arith

lemma int_0_to_7:
  "0 \<le> (s::int) \<Longrightarrow> s \<le> 7 \<Longrightarrow>
   s = 0 \<or> s = 1 \<or> s = 2 \<or> s = 3 \<or> s = 4 \<or> s = 5 \<or> s = 6 \<or> s = 7"
  by arith

lemma and_bit_tests:
  "(x::int) AND 1 \<noteq> 0 \<longleftrightarrow> bit x 0"
  "x AND 2 \<noteq> 0 \<longleftrightarrow> bit x 1"
  "x AND 4 \<noteq> 0 \<longleftrightarrow> bit x 2"
  "x AND 8 \<noteq> 0 \<longleftrightarrow> bit x 3"
  "x AND 16 \<noteq> 0 \<longleftrightarrow> bit x 4"
  "x AND 32 \<noteq> 0 \<longleftrightarrow> bit x 5"
  "x AND 64 \<noteq> 0 \<longleftrightarrow> bit x 6"
  "x AND 128 \<noteq> 0 \<longleftrightarrow> bit x 7"
  using and_exp_eq_0_iff_not_bit [of x 0] and_exp_eq_0_iff_not_bit [of x 1]
    and_exp_eq_0_iff_not_bit [of x 2] and_exp_eq_0_iff_not_bit [of x 3]
    and_exp_eq_0_iff_not_bit [of x 4] and_exp_eq_0_iff_not_bit [of x 5]
    and_exp_eq_0_iff_not_bit [of x 6] and_exp_eq_0_iff_not_bit [of x 7]
  by simp_all

lemma bit_if_flag:
  "bit (if c then (1::int) else 0) n \<longleftrightarrow> c \<and> n = 0"
  "bit (if c then (2::int) else 0) n \<longleftrightarrow> c \<and> n = 1"
  "bit (if c then (4::int) else 0) n \<longleftrightarrow> c \<and> n = 2"
  "bit (if c then (8::int) else 0) n \<longleftrightarrow> c \<and> n = 3"
  "bit (if c then (16::int) else 0) n \<longleftrightarrow> c \<and> n = 4"
  "bit (if c then (32::int) else 0) n \<longleftrightarrow> c \<and> n = 5"
  "bit (if c then (64::int) else 0) n \<longleftrightarrow> c \<and> n = 6"
  "bit (if c then (128::int) else 0) n \<longleftrightarrow> c \<and> n = 7"
  using bit_exp_iff [where ?'a = int, of 0 n] bit_exp_iff [where ?'a = int, of 1 n]
    bit_exp_iff [where ?'a = int, of 2 n] bit_exp_iff [where ?'a = int, of 3 n]
    bit_exp_iff [where ?'a = int, of 4 n] bit_exp_iff [where ?'a = int, of 5 n]
    bit_exp_iff [where ?'a = int, of 6 n] bit_exp_iff [where ?'a = int, of 7 n]
  by (auto simp: bit_1_iff)

lemma flags0_roundtrip:
  "pack_flags0 a AND 1 \<noteq> 0 \<longleftrightarrow> is_small a"
  "pack_flags0 a AND 2 \<noteq> 0 \<longleftrightarrow> is_large a"
  "pack_flags0 a AND 4 \<noteq> 0 \<longleftrightarrow> is_pavement a"
  "pack_flags0 a AND 8 \<noteq> 0 \<longleftrightarrow> is_in_shelter a"
  "pack_flags0 a AND 64 \<noteq> 0 \<longleftrightarrow> is_too_steep_to_walk_on a"
  "pack_flags0 a AND 128 \<noteq> 0 \<longleftrightarrow> is_water a"
  unfolding pack_flags0_def and_bit_tests
  by (simp_all only: bit_or_iff bit_if_flag or.left_neutral) simp_all


lemma or_byte_bound:
  "0 \<le> (x::int) \<and> x < 256 \<Longrightarrow> 0 \<le> y \<and> y < 256 \<Longrightarrow> 0 \<le> (x OR y) \<and> (x OR y) < 256"
  using OR_upper [of x 8 y] by simp

lemma if_flag_byte_bound:
  "0 \<le> k \<Longrightarrow> k < 256 \<Longrightarrow> 0 \<le> (if c then (k::int) else 0) \<and> (if c then k else 0) < 256"
  by simp

lemma flags0_bound: "0 \<le> pack_flags0 a \<and> pack_flags0 a < 256"
  unfolding pack_flags0_def
  by (intro or_byte_bound if_flag_byte_bound) simp_all

lemma and3_bound: "0 \<le> (x::int) AND 3 \<and> x AND 3 \<le> 3"
  by (simp add: AND_upper2)

lemma and7_bound: "0 \<le> (x::int) AND 7 \<and> x AND 7 \<le> 7"
  by (simp add: AND_upper2)

lemma flags1_bound: "0 \<le> pack_flags1 a \<and> pack_flags1 a < 256"
  unfolding pack_flags1_def
  using and3_bound [of "audio_reverb_size a"] and3_bound [of "audio_reverb_wet a"]
  by (intro or_byte_bound if_flag_byte_bound) (simp_all add: push_bit_eq_mult)

lemma flags2_bound: "0 \<le> pack_flags2 a \<and> pack_flags2 a < 256"
  unfolding pack_flags2_def
  using and7_bound [of "ped_density a"]
  by (intro or_byte_bound if_flag_byte_bound) (simp_all add: push_bit_eq_mult)

lemma pack_flags3_unfold:
  "pack_flags3 a =
     ((((((((0 OR (if dir0 (cover_directions a) then 1 else 0))
        OR (if dir1 (cover_directions a) then 2 else 0))
        OR (if dir2 (cover_directions a) then 4 else 0))
        OR (if dir3 (cover_directions a) then 8 else 0))
        OR (if dir4 (cover_directions a) then 16 else 0))
        OR (if dir5 (cover_directions a) then 32 else 0))
        OR (if dir6 (cover_directions a) then 64 else 0))
        OR (if dir7 (cover_directions a) then 128 else 0))"
  unfolding pack_flags3_def upt_8 cover_directions_tuple_def
  by (simp del: or.left_neutral)

lemma flags3_bound: "0 \<le> pack_flags3 a \<and> pack_flags3 a < 256"
  unfolding pack_flags3_unfold
  by (intro or_byte_bound if_flag_byte_bound) simp_all

lemma flags3_bits:
  "pack_flags3 a AND 1 \<noteq> 0 \<longleftrightarrow> dir0 (cover_directions a)"
  "pack_flags3 a AND 2 \<noteq> 0 \<longleftrightarrow> dir1 (cover_directions a)"
  "pack_flags3 a AND 4 \<noteq> 0 \<longleftrightarrow> dir2 (cover_directions a)"
  "pack_flags3 a AND 8 \<noteq> 0 \<longleftrightarrow> dir3 (cover_directions a)"
  "pack_flags3 a AND 16 \<noteq> 0 \<longleftrightarrow> dir4 (cover_directions a)"
  "pack_flags3 a AND 32 \<noteq> 0 \<longleftrightarrow> dir5 (cover_directions a)"
  "pack_flags3 a AND 64 \<noteq> 0 \<longleftrightarrow> dir6 (cover_directions a)"
  "pack_flags3 a AND 128 \<noteq> 0 \<longleftrightarrow> dir7 (cover_directions a)"
  unfolding pack_flags3_unfold and_bit_tests
  by (simp_all only: bit_or_iff bit_if_flag or.left_neutral) simp_all

lemma flags3_roundtrip:
  "NavPolyCoverDirections_of (map (\<lambda>i. pack_flags3 a AND push_bit i 1 \<noteq> 0) [0..<8])
     = cover_directions a"
  unfolding upt_8 NavPolyCoverDirections_of_def
  by (simp add: flags3_bits)

lemma flags1_roundtrip:
  assumes "0 \<le> audio_reverb_size a" "audio_reverb_size a \<le> 3"
    and "0 \<le> audio_reverb_wet a" "audio_reverb_wet a \<le> 3"
  shows "pack_flags1 a AND 3 = audio_reverb_size a"
    and "drop_bit 2 (pack_flags1 a) AND 3 = audio_reverb_wet a"
    and "pack_flags1 a AND 32 \<noteq> 0 \<longleftrightarrow> is_near_car_node a"
    and "pack_flags1 a AND 64 \<noteq> 0 \<longleftrightarrow> is_interior a"
    and "pack_flags1 a AND 128 \<noteq> 0 \<longleftrightarrow> is_isolated a"
  unfolding pack_flags1_def
  using int_0_to_3 [OF assms(1,2)] int_0_to_3 [OF assms(3,4)]
  by (elim disjE; simp)+

lemma flags2_roundtrip:
  assumes "0 \<le> ped_density a" "ped_density a \<le> 7"
  shows "pack_flags2 a AND 1 \<noteq> 0 \<longleftrightarrow> is_network_spawn_candidate a"
    and "pack_flags2 a AND 2 \<noteq> 0 \<longleftrightarrow> is_road a"
    and "pack_flags2 a AND 4 \<noteq> 0 \<longleftrightarrow> lies_along_edge a"
    and "pack_flags2 a AND 8 \<noteq> 0 \<longleftrightarrow> is_train_track a"
    and "pack_flags2 a AND 16 \<noteq> 0 \<longleftrightarrow> is_shallow_water a"
    and "drop_bit 5 (pack_flags2 a) AND 7 = ped_density a"
  unfolding pack_flags2_def
  using int_0_to_7 [OF assms]
  by (elim disjE; simp)+


lemma unpack_pack:
  assumes "0 \<le> audio_reverb_size a" "audio_reverb_size a \<le> 3"
    and "0 \<le> audio_reverb_wet a" "audio_reverb_wet a \<le> 3"
    and "0 \<le> ped_density a" "ped_density a \<le> 7"
  shows "unpack_poly_attributes (pack_data0 a) (pack_data1 a) = a"
proof -
  have b0: "0 \<le> pack_flags0 a" "pack_flags0 a < 256"
    and b1: "0 \<le> pack_flags1 a" "pack_flags1 a < 256"
    and b2: "0 \<le> pack_flags2 a" "pack_flags2 a < 256"
    and b3: "0 \<le> pack_flags3 a" "pack_flags3 a < 256"
    using flags0_bound [of a] flags1_bound [of a] flags2_bound [of a] flags3_bound [of a]
    by simp_all
  have f0: "pack_data0 a AND 255 = pack_flags0 a"
    unfolding pack_data0_def by (rule byte_low_of_pair [OF b0])
  have f1: "drop_bit 8 (pack_data0 a) AND 255 = pack_flags1 a"
    unfolding pack_data0_def by (rule byte_high_of_pair [OF b0 b1])
  have f2: "pack_data1 a AND 255 = pack_flags2 a"
    unfolding pack_data1_def by (rule byte_low_of_pair [OF b2])
  have f3: "drop_bit 8 (pack_data1 a) AND 255 = pack_flags3 a"
    unfolding pack_data1_def by (rule byte_high_of_pair [OF b2 b3])
  show ?thesis
    unfolding unpack_poly_attributes_def Let_def f0 f1 f2 f3 flags3_roundtrip
    by (simp add: flags0_roundtrip flags1_roundtrip [OF assms(1-4)]
        flags2_roundtrip [OF assms(5,6)])
qed

lemma pack_data_16_bits:
  "0 \<le> pack_data0 a \<and> pack_data0 a < 65536 \<and> 0 \<le> pack_data1 a \<and> pack_data1 a < 65536"
  unfolding pack_data0_def pack_data1_def
  using flags0_bound [of a] flags1_bound [of a] flags2_bound [of a] flags3_bound [of a]
    pair_of_bytes_bound [of "pack_flags0 a" "pack_flags1 a"]
    pair_of_bytes_bound [of "pack_flags2 a" "pack_flags3 a"]
  by simp

lemma POLY_DATA_distinct: "POLY_DATA_0 \<noteq> POLY_DATA_1"
  by (simp add: POLY_DATA_0_def POLY_DATA_1_def)

text \<open>
  Claim C10, as the code has it. On a mesh that holds both polygon data attributes in the
  storage of its current mode, and for a polygon index within both, writing a polygon
  attribute value whose \<open>audio_reverb_size\<close> and \<open>audio_reverb_wet\<close> lie in 0..3 and whose
  \<open>ped_density\<close> lies in 0..7 with \<open>mesh_set_navmesh_poly_attributes\<close> succeeds, reading
  the polygon back with \<open>mesh_get_navmesh_poly_attributes\<close> returns the same value, and the
  two stored integers use only their low 16 bits.
\<close>

theorem navmesh_poly_attributes_set_get:
  assumes "0 \<le> audio_reverb_size a" "audio_reverb_size a \<le> 3"
    and "0 \<le> audio_reverb_wet a" "audio_reverb_wet a \<le> 3"
    and "0 \<le> ped_density a" "ped_density a \<le> 7"
    and "poly_data_storage mesh POLY_DATA_0 = Some d0" "poly_idx < length d0"
    and "poly_data_storage mesh POLY_DATA_1 = Some d1" "poly_idx < length d1"
  shows "\<exists>mesh'. mesh_set_navmesh_poly_attributes mesh poly_idx a = Inr mesh'
           \<and> mesh_get_navmesh_poly_attributes mesh' poly_idx = Inr a
           \<and> poly_data_storage mesh' POLY_DATA_0 = Some (d0[poly_idx := pack_data0 a])
           \<and> poly_data_storage mesh' POLY_DATA_1 = Some (d1[poly_idx := pack_data1 a])
           \<and> pack_data0 a AND 65535 = pack_data0 a
           \<and> pack_data1 a AND 65535 = pack_data1 a"
proof -
  have m: "(65535::int) = mask 16"
    by (simp add: mask_eq_exp_minus_1)
  have low: "pack_data0 a AND 65535 = pack_data0 a" "pack_data1 a AND 65535 = pack_data1 a"
    unfolding m using pack_data_16_bits [of a]
    by (simp_all add: take_bit_eq_mask [symmetric] take_bit_int_eq_self)
  note d = POLY_DATA_distinct POLY_DATA_distinct [symmetric]
  note u = unpack_pack [OF assms(1-6)]
  show ?thesis
  proof (cases "is_editmode mesh")
    case True
    define mesh' where "mesh' = mesh\<lparr>bm_faces_layers_int :=
        (bm_faces_layers_int mesh)(POLY_DATA_0 \<mapsto> d0[poly_idx := pack_data0 a],
                                   POLY_DATA_1 \<mapsto> d1[poly_idx := pack_data1 a])\<rparr>"
    have l: "bm_faces_layers_int mesh POLY_DATA_0 = Some d0" "bm_faces_layers_int mesh POLY_DATA_1 = Some d1"
      using assms(7,9) True by (simp_all add: poly_data_storage_def)
    have s: "mesh_set_navmesh_poly_attributes mesh poly_idx a = Inr mesh'"
      using True assms(8,10)
      by (simp add: mesh_set_navmesh_poly_attributes_def Let_def l set_poly_value_def mesh'_def)
    have e: "is_editmode mesh'"
      using True by (simp add: mesh'_def)
    have l': "bm_faces_layers_int mesh' POLY_DATA_0 = Some (d0[poly_idx := pack_data0 a])"
      "bm_faces_layers_int mesh' POLY_DATA_1 = Some (d1[poly_idx := pack_data1 a])"
      using d by (simp_all add: mesh'_def)
    have g: "mesh_get_navmesh_poly_attributes mesh' poly_idx = Inr a"
      using e assms(8,10) by (simp add: mesh_get_navmesh_poly_attributes_def l' poly_value_def u)
    have p: "poly_data_storage mesh' POLY_DATA_0 = Some (d0[poly_idx := pack_data0 a])"
      "poly_data_storage mesh' POLY_DATA_1 = Some (d1[poly_idx := pack_data1 a])"
      using e l' by (simp_all add: poly_data_storage_def)
    show ?thesis
      using s g p low by (intro exI [of _ mesh'] conjI)
  next
    case False
    define mesh' where "mesh' = mesh\<lparr>attributes :=
        (attributes mesh)(POLY_DATA_0 \<mapsto> d0[poly_idx := pack_data0 a],
                          POLY_DATA_1 \<mapsto> d1[poly_idx := pack_data1 a])\<rparr>"
    have l: "attributes mesh POLY_DATA_0 = Some d0" "attributes mesh POLY_DATA_1 = Some d1"
      using assms(7,9) False by (simp_all add: poly_data_storage_def)
    have s: "mesh_set_navmesh_poly_attributes mesh poly_idx a = Inr mesh'"
      using False assms(8,10)
      by (simp add: mesh_set_navmesh_poly_attributes_def Let_def l write_if_present_def
          set_poly_value_def mesh'_def)
    have e: "\<not> is_editmode mesh'"
      using False by (simp add: mesh'_def)
    have l': "attributes mesh' POLY_DATA_0 = Some (d0[poly_idx := pack_data0 a])"
      "attributes mesh' POLY_DATA_1 = Some (d1[poly_idx := pack_data1 a])"
      using d by (simp_all add: mesh'_def)
    have g: "mesh_get_navmesh_poly_attributes mesh' poly_idx = Inr a"
      using e assms(8,10)
      by (simp add: mesh_get_navmesh_poly_attributes_def Let_def l' attr_value_or_0_def
          poly_value_def u)
    have p: "poly_data_storage mesh' POLY_DATA_0 = Some (d0[poly_idx := pack_data0 a])"
      "poly_data_storage mesh' POLY_DATA_1 = Some (d1[poly_idx := pack_data1 a])"
      using e l' by (simp_all add: poly_data_storage_def)
    show ?thesis
      using s g p low by (intro exI [of _ mesh'] conjI)
  qed
qed

text \<open>The round trip at a concrete value, on polygon 1 of a three-polygon mesh.\<close>

theorem navmesh_poly_attributes_set_get_witness:
  "\<exists>mesh'. mesh_set_navmesh_poly_attributes nav_example_mesh 1 nav_example_attrs = Inr mesh'
      \<and> mesh_get_navmesh_poly_attributes mesh' 1 = Inr nav_example_attrs
      \<and> poly_data_storage mesh' POLY_DATA_0 = Some [0, 44613, 0]
      \<and> poly_data_storage mesh' POLY_DATA_1 = Some [0, 27050, 0]"
proof -
  have p: "pack_data0 nav_example_attrs = 44613" "pack_data1 nav_example_attrs = 27050"
    by (simp_all add: pack_data0_def pack_data1_def pack_flags0_def pack_flags1_def
        pack_flags2_def pack_flags3_unfold nav_example_attrs_def)
  have l0: "poly_data_storage nav_example_mesh POLY_DATA_0 = Some [0, 0, 0]"
    and l1: "poly_data_storage nav_example_mesh POLY_DATA_1 = Some [0, 0, 0]"
    using POLY_DATA_distinct by (simp_all add: poly_data_storage_def nav_example_mesh_def)
  have r: "0 \<le> audio_reverb_size nav_example_attrs" "audio_reverb_size nav_example_attrs \<le> 3"
    "0 \<le> audio_reverb_wet nav_example_attrs" "audio_reverb_wet nav_example_attrs \<le> 3"
    "0 \<le> ped_density nav_example_attrs" "ped_density nav_example_attrs \<le> 7"
    by (simp_all add: nav_example_attrs_def)
  have i: "(1::nat) < length [0::int, 0, 0]"
    by simp
  from navmesh_poly_attributes_set_get [OF r l0 i l1 i]
  obtain mesh' where "mesh_set_navmesh_poly_attributes nav_example_mesh 1 nav_example_attrs = Inr mesh'"
    and "mesh_get_navmesh_poly_attributes mesh' 1 = Inr nav_example_attrs"
    and "poly_data_storage mesh' POLY_DATA_0 = Some ([0, 0, 0][1 := 44613])"
    and "poly_data_storage mesh' POLY_DATA_1 = Some ([0, 0, 0][1 := 27050])"
    unfolding p by (elim exE conjE)
  then show ?thesis
    by (intro exI [of _ mesh'] conjI) simp_all
qed

text \<open>
  On a mesh outside edit mode that has neither attribute, writing a value whose fields are
  all in range changes nothing and reading returns the all-zero value, which is a different
  value: \<open>is_small\<close> was written as true and is read as false.
\<close>

theorem navmesh_set_get_without_attributes:
  "0 \<le> audio_reverb_size nav_example_attrs \<and> audio_reverb_size nav_example_attrs \<le> 3 \<and>
   0 \<le> audio_reverb_wet nav_example_attrs \<and> audio_reverb_wet nav_example_attrs \<le> 3 \<and>
   0 \<le> ped_density nav_example_attrs \<and> ped_density nav_example_attrs \<le> 7 \<and>
   mesh_set_navmesh_poly_attributes nav_bare_mesh 1 nav_example_attrs = Inr nav_bare_mesh \<and>
   mesh_get_navmesh_poly_attributes nav_bare_mesh 1 = Inr (unpack_poly_attributes 0 0) \<and>
   is_small nav_example_attrs \<and>
   \<not> is_small (unpack_poly_attributes 0 0) \<and>
   mesh_get_navmesh_poly_attributes nav_bare_mesh 1 \<noteq> Inr nav_example_attrs"
proof -
  have r: "0 \<le> audio_reverb_size nav_example_attrs \<and> audio_reverb_size nav_example_attrs \<le> 3 \<and>
   0 \<le> audio_reverb_wet nav_example_attrs \<and> audio_reverb_wet nav_example_attrs \<le> 3 \<and>
   0 \<le> ped_density nav_example_attrs \<and> ped_density nav_example_attrs \<le> 7"
    by (simp add: nav_example_attrs_def)
  have s: "mesh_set_navmesh_poly_attributes nav_bare_mesh 1 nav_example_attrs = Inr nav_bare_mesh"
    by (simp add: mesh_set_navmesh_poly_attributes_def Let_def write_if_present_def nav_bare_mesh_def)
  have g: "mesh_get_navmesh_poly_attributes nav_bare_mesh 1 = Inr (unpack_poly_attributes 0 0)"
    by (simp add: mesh_get_navmesh_poly_attributes_def Let_def attr_value_or_0_def nav_bare_mesh_def)
  have t: "is_small nav_example_attrs"
    by (simp add: nav_example_attrs_def)
  have f: "\<not> is_small (unpack_poly_attributes 0 0)"
    by (simp add: unpack_poly_attributes_def)
  have n: "mesh_get_navmesh_poly_attributes nav_bare_mesh 1 \<noteq> Inr nav_example_attrs"
  proof
    assume "mesh_get_navmesh_poly_attributes nav_bare_mesh 1 = Inr nav_example_attrs"
    then have "unpack_poly_attributes 0 0 = nav_example_attrs"
      unfolding g by simp
    with t f show False
      by simp
  qed
  show ?thesis
    using r s g t f n by (intro conjI) simp_all
qed

section \<open>Properties of the sort of children and collisions\<close>

lemma dict_get_map_of: "dict_get d k = map_of d k"
  by (induction d) auto

lemma dict_get_dict_set: "dict_get (dict_set d k v) k' = (if k' = k then Some v else dict_get d k')"
  by (induction d) auto

lemma dict_set_keys_old: "k \<in> fst ` set d \<Longrightarrow> map fst (dict_set d k v) = map fst d"
proof (induction d)
  case Nil
  then show ?case by simp
next
  case (Cons e d)
  obtain k' v' where e: "e = (k', v')" by (cases e)
  show ?case
  proof (cases "k' = k")
    case True
    then show ?thesis by (simp add: e)
  next
    case False
    with Cons show ?thesis by (simp add: e)
  qed
qed

lemma dict_set_fresh: "k \<notin> fst ` set d \<Longrightarrow> dict_set d k v = d @ [(k, v)]"
proof (induction d)
  case Nil
  then show ?case by simp
next
  case (Cons e d)
  obtain k' v' where e: "e = (k', v')" by (cases e)
  from Cons show ?case by (auto simp: e)
qed

lemma dict_set_keys:
  "map fst (dict_set d k v) = (if k \<in> fst ` set d then map fst d else map fst d @ [k])"
  using dict_set_keys_old [of k d v] dict_set_fresh [of k d v] by simp

lemma dict_set_distinct: "distinct (map fst d) \<Longrightarrow> distinct (map fst (dict_set d k v))"
  by (simp add: dict_set_keys)

lemma dict_get_None_iff: "dict_get d k = None \<longleftrightarrow> k \<notin> fst ` set d"
  by (simp add: dict_get_map_of map_of_eq_None_iff)

lemma group_pairs_snoc: "group_pairs (ps @ [(k, v)]) = defaultdict_append (group_pairs ps) k v"
  by (simp add: group_pairs_def)

lemma group_pairs_props:
  "distinct (map fst (group_pairs ps)) \<and>
   fst ` set (group_pairs ps) = fst ` set ps \<and>
   (\<forall>k. dict_get (group_pairs ps) k =
        (if k \<in> fst ` set ps then Some (map snd (filter (\<lambda>p. fst p = k) ps)) else None))"
proof (induction ps rule: rev_induct)
  case Nil
  then show ?case by (simp add: group_pairs_def)
next
  case (snoc x ps)
  obtain k v where x: "x = (k, v)" by (cases x)
  let ?d = "group_pairs ps"
  have 1: "distinct (map fst (group_pairs (ps @ [x])))"
    using snoc by (simp add: x group_pairs_snoc defaultdict_append_def dict_set_distinct)
  have 2: "fst ` set (group_pairs (ps @ [x])) = fst ` set (ps @ [x])"
  proof -
    have "set (map fst (group_pairs (ps @ [x]))) = insert k (fst ` set ?d)"
      unfolding x group_pairs_snoc defaultdict_append_def dict_set_keys
      by (auto simp: insert_absorb)
    then show ?thesis using snoc by (simp add: x)
  qed
  have 3: "dict_get (group_pairs (ps @ [x])) k' =
        (if k' \<in> fst ` set (ps @ [x]) then Some (map snd (filter (\<lambda>p. fst p = k') (ps @ [x]))) else None)" for k'
  proof (cases "k' = k")
    case True
    have "k \<notin> fst ` set ps \<Longrightarrow> filter (\<lambda>p. fst p = k) ps = []"
      by (auto simp: filter_empty_conv)
    with True show ?thesis
      using snoc by (auto simp: x group_pairs_snoc defaultdict_append_def dict_get_dict_set)
  next
    case False
    then show ?thesis
      using snoc by (auto simp: x group_pairs_snoc defaultdict_append_def dict_get_dict_set)
  qed
  show ?case
    by (intro conjI allI) (rule 1, rule 2, rule 3)
qed

lemma group_pairs_distinct: "distinct (map fst (group_pairs ps))"
  using group_pairs_props [of ps] by (rule conjunct1)

lemma group_pairs_keys: "fst ` set (group_pairs ps) = fst ` set ps"
  using group_pairs_props [of ps] by (elim conjE)

lemma group_pairs_get:
  "dict_get (group_pairs ps) k =
     (if k \<in> fst ` set ps then Some (map snd (filter (\<lambda>p. fst p = k) ps)) else None)"
  using group_pairs_props [of ps] by (elim conjE allE [of _ k])


lemma concat_groups_filter:
  assumes "distinct (map fst d)"
    and "\<forall>(k, vs) \<in> set d. vs = filter (\<lambda>i. key i = k) L"
  shows "filter (\<lambda>i. key i = g) (concat (map snd d)) =
         (if g \<in> fst ` set d then filter (\<lambda>i. key i = g) L else [])"
  using assms
proof (induction d)
  case Nil
  then show ?case by simp
next
  case (Cons e d)
  obtain k vs where e: "e = (k, vs)" by (cases e)
  have vs: "vs = filter (\<lambda>i. key i = k) L"
    using Cons.prems(2) by (simp add: e)
  have here: "filter (\<lambda>i. key i = g) vs = (if g = k then filter (\<lambda>i. key i = g) L else [])"
    unfolding vs by (auto simp: filter_empty_conv)
  have rest: "filter (\<lambda>i. key i = g) (concat (map snd d)) =
         (if g \<in> fst ` set d then filter (\<lambda>i. key i = g) L else [])"
    using Cons by simp
  have k: "k \<notin> fst ` set d"
    using Cons.prems(1) by (simp add: e)
  show ?case
    using k by (auto simp: e here rest)
qed

lemma concat_groups_sorted:
  assumes "sorted (map fst d)"
    and "\<forall>(k, vs) \<in> set d. \<forall>i \<in> set vs. key i = k"
  shows "sorted (map key (concat (map snd d)))"
  using assms
proof (induction d)
  case Nil
  then show ?case by simp
next
  case (Cons e d)
  obtain k vs where e: "e = (k, vs)" by (cases e)
  have "sorted (map key vs)"
    using Cons.prems(2) by (simp add: e sorted_iff_nth_mono)
  moreover have "sorted (map key (concat (map snd d)))"
    using Cons by simp
  moreover have "\<forall>x \<in> set vs. \<forall>y \<in> set (concat (map snd d)). key x \<le> key y"
    using Cons.prems by (fastforce simp: e)
  ultimately show ?case
    by (simp add: e sorted_append)
qed

lemma mset_eq_by_filters:
  assumes "\<And>g. filter (\<lambda>i. key i = g) xs = filter (\<lambda>i. key i = g) ys"
  shows "mset xs = mset ys"
proof (rule multiset_eqI)
  fix x
  have "count (mset xs) x = count (mset (filter (\<lambda>i. key i = key x) xs)) x"
    by simp
  also have "\<dots> = count (mset (filter (\<lambda>i. key i = key x) ys)) x"
    by (simp only: assms)
  also have "\<dots> = count (mset ys) x"
    by simp
  finally show "count (mset xs) x = count (mset ys) x" .
qed

lemma grouped_concat_is_sort_key:
  fixes key :: "'a \<Rightarrow> 'k::linorder"
  shows "concat (map snd (sort_key fst (group_pairs (map (\<lambda>i. (key i, i)) L)))) = sort_key key L"
proof -
  let ?ps = "map (\<lambda>i. (key i, i)) L"
  let ?D = "group_pairs ?ps"
  let ?d = "sort_key fst ?D"
  let ?p = "concat (map snd ?d)"
  have dk: "distinct (map fst ?d)"
  proof -
    have "mset (map fst ?d) = mset (map fst ?D)"
      by simp
    from mset_eq_imp_distinct_iff [OF this] show ?thesis
      by (simp only: group_pairs_distinct)
  qed
  have entries: "vs = filter (\<lambda>i. key i = k) L" if "(k, vs) \<in> set ?d" for k vs
  proof -
    have in_D: "(k, vs) \<in> set ?D"
      using that by simp
    from map_of_is_SomeI [OF group_pairs_distinct in_D] have g: "dict_get ?D k = Some vs"
      by (simp add: dict_get_map_of)
    have "k \<in> fst ` set ?D"
      using in_D by (rule image_eqI [rotated]) simp
    then have "k \<in> fst ` set ?ps"
      by (simp only: group_pairs_keys)
    with g have "vs = map snd (filter (\<lambda>p. fst p = k) ?ps)"
      by (simp only: group_pairs_get if_True option.inject)
    also have "\<dots> = filter (\<lambda>i. key i = k) L"
      by (induction L) auto
    finally show ?thesis .
  qed
  have keys: "fst ` set ?d = key ` set L"
  proof -
    have "fst ` set ?d = fst ` set ?D"
      by simp
    also have "\<dots> = fst ` set ?ps"
      by (rule group_pairs_keys)
    also have "\<dots> = key ` set L"
      by (simp add: image_comp comp_def)
    finally show ?thesis .
  qed
  have filt: "filter (\<lambda>i. key i = g) ?p = filter (\<lambda>i. key i = g) L" for g
  proof -
    have "filter (\<lambda>i. key i = g) ?p =
         (if g \<in> fst ` set ?d then filter (\<lambda>i. key i = g) L else [])"
      by (rule concat_groups_filter [OF dk]) (use entries in blast)
    also have "\<dots> = filter (\<lambda>i. key i = g) L"
    proof (cases "g \<in> key ` set L")
      case True
      then show ?thesis by (simp only: keys if_True)
    next
      case False
      then have "filter (\<lambda>i. key i = g) L = []"
        by (auto simp: filter_empty_conv)
      with False show ?thesis by (simp only: keys if_False)
    qed
    finally show ?thesis .
  qed
  have members: "key i = k" if "(k, vs) \<in> set ?d" "i \<in> set vs" for k vs i
    using that(2) unfolding entries [OF that(1)] by simp
  have srt: "sorted (map key ?p)"
  proof (rule concat_groups_sorted)
    show "sorted (map fst ?d)"
      by (rule sorted_sort_key)
    show "\<forall>(k, vs) \<in> set ?d. \<forall>i \<in> set vs. key i = k"
      using members by blast
  qed
  have "sort_key key L = ?p"
  proof (rule properties_for_sort_key)
    show "mset ?p = mset L"
      by (rule mset_eq_by_filters [of key]) (rule filt)
    show "sorted (map key ?p)"
      by (rule srt)
    show "filter (\<lambda>x. key k = key x) ?p = filter (\<lambda>x. key k = key x) L" for k
      using filt [of "key k"] by (simp add: eq_commute)
  qed
  then show ?thesis by simp
qed


lemma enumerate_as_map: "enumerate 0 xs = map (\<lambda>i. (i, xs ! i)) [0..<length xs]"
  by (rule nth_equalityI) (simp_all add: nth_enumerate_eq)

lemma sort_children_by_group_eq:
  "sort_children_by_group cs =
     group_pairs (map (\<lambda>i. (group_index (cs ! i), i)) [0..<length cs])"
  unfolding sort_children_by_group_def group_pairs_def enumerate_as_map fold_map
  by (simp add: comp_def)

lemma sorted_groups_concat:
  "concat (map snd (sort_key fst (sort_children_by_group cs))) = stable_group_order cs"
  unfolding sort_children_by_group_eq stable_group_order_def
  by (rule grouped_concat_is_sort_key)

lemma zip_snoc_upt:
  "zip (q @ [x]) [0..<Suc (length q)] = zip q [0..<length q] @ [(x, length q)]"
  by simp

lemma visit_children:
  "distinct (q @ vs) \<Longrightarrow>
   fold (sort_visit_child cs) vs (zip q [0..<length q], map ((!) cs) q) =
     (zip (q @ vs) [0..<length (q @ vs)], map ((!) cs) (q @ vs))"
proof (induction vs arbitrary: q)
  case Nil
  then show ?case by simp
next
  case (Cons v vs)
  have fresh: "v \<notin> fst ` set (zip q [0..<length q])"
    using Cons.prems by (auto dest: set_zip_leftD)
  have step: "sort_visit_child cs v (zip q [0..<length q], map ((!) cs) q) =
      (zip (q @ [v]) [0..<length (q @ [v])], map ((!) cs) (q @ [v]))"
    by (simp add: sort_visit_child_def dict_set_fresh [OF fresh])
  have "distinct ((q @ [v]) @ vs)"
    using Cons.prems by simp
  from Cons.IH [OF this] show ?case
    by (simp only: fold_simps step comp_def append_assoc append_Cons append_Nil)
qed

lemma visit_groups:
  "distinct (q @ concat (map snd d)) \<Longrightarrow>
   fold (\<lambda>(g, children_indices) st. fold (sort_visit_child cs) children_indices st) d
        (zip q [0..<length q], map ((!) cs) q) =
     (zip (q @ concat (map snd d)) [0..<length (q @ concat (map snd d))],
      map ((!) cs) (q @ concat (map snd d)))"
proof (induction d arbitrary: q)
  case Nil
  then show ?case by simp
next
  case (Cons e d)
  obtain g vs where e: "e = (g, vs)" by (cases e)
  have 1: "distinct (q @ vs)"
    using Cons.prems by (auto simp: e)
  have 2: "distinct ((q @ vs) @ concat (map snd d))"
    using Cons.prems by (auto simp: e)
  show ?case
    using Cons.IH [OF 2] by (simp add: e visit_children [OF 1])
qed

lemma sort_visit_groups_eq:
  assumes "distinct (concat (map snd d))"
  shows "sort_visit_groups cs d =
     (zip (concat (map snd d)) [0..<length (concat (map snd d))], map ((!) cs) (concat (map snd d)))"
  using visit_groups [of "[]" d cs] assms by (simp add: sort_visit_groups_def)

lemma sort_collisions_eq:
  assumes "\<forall>i \<in> set q. i < length bs" "m + length q \<le> length acc"
  shows "sort_collisions bs (zip q [m..<m + length q]) acc =
         Inr (take m acc @ map ((!) bs) q @ drop (m + length q) acc)"
  using assms
proof (induction q arbitrary: m acc)
  case Nil
  then show ?case by simp
next
  case (Cons x q)
  have "[m..<m + length (x # q)] = m # [Suc m..<Suc m + length q]"
    by (simp add: upt_conv_Cons del: upt_Suc)
  then have z: "zip (x # q) [m..<m + length (x # q)] = (x, m) # zip q [Suc m..<Suc m + length q]"
    by (simp del: upt_Suc)
  have m: "m < length acc"
    using Cons.prems by simp
  let ?acc = "acc[m := bs ! x]"
  have IH: "sort_collisions bs (zip q [Suc m..<Suc m + length q]) ?acc =
         Inr (take (Suc m) ?acc @ map ((!) bs) q @ drop (Suc m + length q) ?acc)"
    by (rule Cons.IH) (use Cons.prems in simp_all)
  have t: "take (Suc m) ?acc = take m acc @ [bs ! x]"
    using m by (simp add: take_Suc_conv_app_nth)
  have d: "drop (Suc m + length q) ?acc = drop (m + length (x # q)) acc"
    by simp
  have "sort_collisions bs (zip (x # q) [m..<m + length (x # q)]) acc =
      sort_collisions bs (zip q [Suc m..<Suc m + length q]) ?acc"
    unfolding z using Cons.prems m by (simp del: upt_Suc)
  also have "\<dots> = Inr (take m acc @ map ((!) bs) (x # q) @ drop (m + length (x # q)) acc)"
    unfolding IH t by simp
  finally show ?case .
qed

lemma sort_collisions_all:
  assumes "\<forall>i \<in> set q. i < length bs"
  shows "sort_collisions bs (zip q [0..<length q]) (replicate (length q) None) = Inr (map ((!) bs) q)"
  using sort_collisions_eq [of q bs 0 "replicate (length q) None"] assms by simp

lemma stable_group_order_props:
  "mset (stable_group_order cs) = mset [0..<length cs]"
  "set (stable_group_order cs) = {0..<length cs}"
  "distinct (stable_group_order cs)"
  "length (stable_group_order cs) = length cs"
  by (simp_all add: stable_group_order_def)

lemma sort_cols_and_children_eq:
  assumes "children lod \<noteq> []" "bounds (archetype lod) \<noteq> []"
    and "length (bounds (archetype lod)) = length (children lod)"
  shows "sort_cols_and_children lod =
     Inr (lod\<lparr>children := map ((!) (children lod)) (stable_group_order (children lod)),
              archetype := (archetype lod)
                \<lparr>bounds := map ((!) (bounds (archetype lod))) (stable_group_order (children lod))\<rparr>\<rparr>)"
proof -
  let ?cs = "children lod" and ?bs = "bounds (archetype lod)"
  let ?p = "stable_group_order ?cs"
  let ?d = "sort_key fst (sort_children_by_group ?cs)"
  have c: "concat (map snd ?d) = ?p"
    by (rule sorted_groups_concat)
  have v: "sort_visit_groups ?cs ?d = (zip ?p [0..<length ?p], map ((!) ?cs) ?p)"
    using sort_visit_groups_eq [of ?d ?cs] by (simp add: c stable_group_order_props)
  have "\<forall>i \<in> set ?p. i < length ?bs"
    using assms(3) by (simp add: stable_group_order_props)
  from sort_collisions_all [OF this]
  have s: "sort_collisions ?bs (zip ?p [0..<length ?p]) (replicate (length ?p) None) =
      Inr (map ((!) ?bs) ?p)" .
  show ?thesis
    using assms(1,2) by (simp add: sort_cols_and_children_def Let_def v s)
qed

lemma nth_filter_order:
  fixes xs :: "'a::linorder list"
  assumes "i < j" "j < length xs" "P (xs ! i)" "P (xs ! j)"
    and "sorted (filter P xs)" "distinct xs"
  shows "xs ! i < xs ! j"
proof -
  have i: "i < length xs"
    using assms by simp
  define ys where "ys = drop (Suc i) xs"
  define as where "as = take i xs"
  define bs where "bs = take (j - Suc i) ys"
  define cs where "cs = drop (Suc (j - Suc i)) ys"
  have 1: "xs = as @ xs ! i # ys"
    unfolding as_def ys_def by (rule id_take_nth_drop [OF i])
  have j: "j - Suc i < length ys" and jn: "ys ! (j - Suc i) = xs ! j"
    using assms by (simp_all add: ys_def)
  have 2: "ys = bs @ xs ! j # cs"
    using id_take_nth_drop [OF j] unfolding jn bs_def cs_def .
  have "filter P xs = filter P (as @ xs ! i # ys)"
    by (rule arg_cong [OF 1])
  also have "\<dots> = filter P as @ xs ! i # filter P ys"
    by (simp add: assms(3))
  also have "filter P ys = filter P (bs @ xs ! j # cs)"
    by (rule arg_cong [OF 2])
  also have "\<dots> = filter P bs @ xs ! j # filter P cs"
    by (simp add: assms(4))
  finally have "sorted (filter P as @ xs ! i # filter P bs @ xs ! j # filter P cs)"
    using assms(5) by simp
  then have "xs ! i \<le> xs ! j"
    by (simp add: sorted_append)
  moreover have "xs ! i \<noteq> xs ! j"
    using assms(1,2,6) i by (simp add: nth_eq_iff_index_eq)
  ultimately show ?thesis by simp
qed

lemma stable_group_order_stable:
  "filter (\<lambda>i. group_index (cs ! i) = g) (stable_group_order cs) =
   filter (\<lambda>i. group_index (cs ! i) = g) [0..<length cs]"
  unfolding stable_group_order_def by (rule sort_key_stable)

lemma stable_group_order_sorted:
  "sorted (map (\<lambda>i. group_index (cs ! i)) (stable_group_order cs))"
  unfolding stable_group_order_def by (rule sorted_sort_key)

lemma stable_group_order_keeps_order:
  assumes "i < j" "j < length cs"
    and "group_index (cs ! (stable_group_order cs ! i)) = group_index (cs ! (stable_group_order cs ! j))"
  shows "stable_group_order cs ! i < stable_group_order cs ! j"
proof -
  let ?p = "stable_group_order cs"
  let ?P = "\<lambda>k. group_index (cs ! k) = group_index (cs ! (?p ! i))"
  have "sorted (filter ?P ?p)"
    unfolding stable_group_order_stable by (simp add: sorted_wrt_filter)
  then show ?thesis
    using assms by (intro nth_filter_order [where P = ?P]) (simp_all add: stable_group_order_props)
qed

text \<open>
  Claim C1, as the code has it. For a physics LOD whose children and collision bounds are
  both non-empty and of the same length, \<open>sort_cols_and_children\<close> returns the LOD
  with the children reordered by one permutation \<open>p\<close> of their indices and the bounds
  reordered by the same \<open>p\<close>: the new children are in ascending order of group index,
  children of the same group keep their relative order, and position \<open>i\<close> of both lists
  holds the child and the bound that stood together at \<open>p ! i\<close> before.
\<close>

theorem sort_cols_and_children_stable:
  assumes "children lod \<noteq> []" "bounds (archetype lod) \<noteq> []"
    and "length (bounds (archetype lod)) = length (children lod)"
  shows "\<exists>lod'. sort_cols_and_children lod = Inr lod' \<and>
     (let cs = children lod; bs = bounds (archetype lod); p = stable_group_order cs in
        mset p = mset [0..<length cs] \<and>
        children lod' = map ((!) cs) p \<and>
        bounds (archetype lod') = map ((!) bs) p \<and>
        sorted (map group_index (children lod')) \<and>
        (\<forall>i j. i < j \<and> j < length cs \<and>
           group_index (children lod' ! i) = group_index (children lod' ! j) \<longrightarrow> p ! i < p ! j) \<and>
        (\<forall>g. filter (\<lambda>c. group_index c = g) (children lod') = filter (\<lambda>c. group_index c = g) cs) \<and>
        (\<forall>i < length cs. children lod' ! i = cs ! (p ! i) \<and>
           bounds (archetype lod') ! i = bs ! (p ! i)))"
proof -
  let ?cs = "children lod" and ?bs = "bounds (archetype lod)"
  let ?p = "stable_group_order ?cs"
  let ?lod' = "lod\<lparr>children := map ((!) ?cs) ?p,
              archetype := (archetype lod)\<lparr>bounds := map ((!) ?bs) ?p\<rparr>\<rparr>"
  have r: "sort_cols_and_children lod = Inr ?lod'"
    by (rule sort_cols_and_children_eq [OF assms])
  have c: "children ?lod' = map ((!) ?cs) ?p" and b: "bounds (archetype ?lod') = map ((!) ?bs) ?p"
    by simp_all
  have s: "sorted (map group_index (map ((!) ?cs) ?p))"
    using stable_group_order_sorted [of ?cs] by (simp add: comp_def)
  have k: "?p ! i < ?p ! j"
    if "i < j" "j < length ?cs" "group_index (map ((!) ?cs) ?p ! i) = group_index (map ((!) ?cs) ?p ! j)"
    for i j
    using that by (intro stable_group_order_keeps_order) (simp_all add: stable_group_order_props)
  have f: "filter (\<lambda>c. group_index c = g) (map ((!) ?cs) ?p) = filter (\<lambda>c. group_index c = g) ?cs" for g
  proof -
    have "filter (\<lambda>c. group_index c = g) (map ((!) ?cs) ?p) =
        map ((!) ?cs) (filter (\<lambda>i. group_index (?cs ! i) = g) ?p)"
      by (simp add: filter_map comp_def)
    also have "\<dots> = map ((!) ?cs) (filter (\<lambda>i. group_index (?cs ! i) = g) [0..<length ?cs])"
      by (simp only: stable_group_order_stable)
    also have "\<dots> = filter (\<lambda>c. group_index c = g) (map ((!) ?cs) [0..<length ?cs])"
      by (simp add: filter_map comp_def)
    also have "\<dots> = filter (\<lambda>c. group_index c = g) ?cs"
      by (simp add: map_nth)
    finally show ?thesis .
  qed
  have n: "\<forall>i < length ?cs. map ((!) ?cs) ?p ! i = ?cs ! (?p ! i) \<and> map ((!) ?bs) ?p ! i = ?bs ! (?p ! i)"
    by (simp add: stable_group_order_props)
  show ?thesis
    unfolding Let_def
  proof (intro exI [of _ ?lod'] conjI allI impI)
    show "sort_cols_and_children lod = Inr ?lod'"
      by (rule r)
    show "mset ?p = mset [0..<length ?cs]"
      by (rule stable_group_order_props)
    show "children ?lod' = map ((!) ?cs) ?p"
      by (rule c)
    show "bounds (archetype ?lod') = map ((!) ?bs) ?p"
      by (rule b)
    show "sorted (map group_index (children ?lod'))"
      unfolding c by (rule s)
    show "?p ! i < ?p ! j"
      if "i < j \<and> j < length ?cs \<and>
          group_index (children ?lod' ! i) = group_index (children ?lod' ! j)" for i j
      using that unfolding c by (intro k) simp_all
    show "filter (\<lambda>c. group_index c = g) (children ?lod') = filter (\<lambda>c. group_index c = g) ?cs" for g
      unfolding c by (rule f)
    show "children ?lod' ! i = ?cs ! (?p ! i)" if "i < length ?cs" for i
      unfolding c using n that by simp
    show "bounds (archetype ?lod') ! i = ?bs ! (?p ! i)" if "i < length ?cs" for i
      unfolding b using n that by simp
  qed
qed

lemma sort_example_order: "stable_group_order sort_example_children = [1, 0, 2]"
proof -
  have u: "[0..<3] = [0, 1, 2::nat]"
    by (simp add: upt_rec)
  show ?thesis
    by (simp add: stable_group_order_def sort_example_children_def u)
qed

text \<open>Groups 1, 0, 1: the order becomes 1, 0, 2 for children and bounds alike.\<close>

theorem sort_cols_and_children_stable_witness:
  "\<exists>lod'. sort_cols_and_children sort_example_lod = Inr lod' \<and>
     children lod' = [sort_example_children ! 1, sort_example_children ! 0, sort_example_children ! 2] \<and>
     bounds (archetype lod') = [None, sort_example_bounds ! 0, sort_example_bounds ! 2] \<and>
     map group_index (children lod') = [0, 1, 1]"
proof -
  have a: "children sort_example_lod \<noteq> []" "bounds (archetype sort_example_lod) \<noteq> []"
    "length (bounds (archetype sort_example_lod)) = length (children sort_example_lod)"
    by (simp_all add: sort_example_lod_def sort_example_children_def sort_example_bounds_def)
  have c: "children sort_example_lod = sort_example_children"
    and b: "bounds (archetype sort_example_lod) = sort_example_bounds"
    by (simp_all add: sort_example_lod_def)
  from sort_cols_and_children_stable [OF a]
  obtain lod' where r: "sort_cols_and_children sort_example_lod = Inr lod'"
    and c': "children lod' = map ((!) sort_example_children) [1, 0, 2]"
    and b': "bounds (archetype lod') = map ((!) sort_example_bounds) [1, 0, 2]"
    unfolding Let_def c b sort_example_order by (elim exE conjE)
  have "map group_index (children lod') = [0, 1, 1]"
    unfolding c' by (simp add: sort_example_children_def)
  moreover have "sort_example_bounds ! 1 = None"
    by (simp add: sort_example_bounds_def)
  ultimately show ?thesis
    using r c' b' by simp
qed

lemma sort_cols_and_children_unfold:
  assumes "children lod \<noteq> []" "bounds (archetype lod) \<noteq> []"
  shows "sort_cols_and_children lod =
     (case sort_collisions (bounds (archetype lod))
             (zip (stable_group_order (children lod)) [0..<length (children lod)])
             (replicate (length (children lod)) None) of
        Inl e \<Rightarrow> Inl e
      | Inr sorted_collisions \<Rightarrow>
          Inr (lod\<lparr>children := map ((!) (children lod)) (stable_group_order (children lod)),
                   archetype := (archetype lod)\<lparr>bounds := sorted_collisions\<rparr>\<rparr>))"
proof -
  let ?cs = "children lod"
  let ?p = "stable_group_order ?cs"
  let ?d = "sort_key fst (sort_children_by_group ?cs)"
  have c: "concat (map snd ?d) = ?p"
    by (rule sorted_groups_concat)
  have v: "sort_visit_groups ?cs ?d = (zip ?p [0..<length ?p], map ((!) ?cs) ?p)"
    using sort_visit_groups_eq [of ?d ?cs] by (simp add: c stable_group_order_props)
  show ?thesis
    using assms by (simp add: sort_cols_and_children_def Let_def v stable_group_order_props)
qed

text \<open>
  With one bound more than children the bounds come back one short, and with one bound less
  the function raises: in neither case are the bounds permuted.
\<close>

theorem sort_cols_and_children_unequal_lengths:
  "children sort_surplus_lod \<noteq> [] \<and> bounds (archetype sort_surplus_lod) \<noteq> [] \<and>
   length (bounds (archetype sort_surplus_lod)) = 4 \<and>
   sort_cols_and_children sort_surplus_lod =
     Inr (sort_surplus_lod
           \<lparr>children := [sort_example_children ! 1, sort_example_children ! 0, sort_example_children ! 2],
            archetype := (archetype sort_surplus_lod)
              \<lparr>bounds := [None, sort_example_bounds ! 0, sort_example_bounds ! 2]\<rparr>\<rparr>) \<and>
   children sort_short_lod \<noteq> [] \<and> bounds (archetype sort_short_lod) \<noteq> [] \<and>
   sort_cols_and_children sort_short_lod = Inl IndexError"
proof -
  have u: "[0..<3] = [0, 1, 2::nat]"
    by (simp add: upt_rec)
  have c: "children sort_surplus_lod = sort_example_children"
    "children sort_short_lod = sort_example_children"
    by (simp_all add: sort_surplus_lod_def sort_short_lod_def sort_example_lod_def)
  have n: "length sort_example_children = 3"
    by (simp add: sort_example_children_def)
  have ne: "children sort_surplus_lod \<noteq> []" "bounds (archetype sort_surplus_lod) \<noteq> []"
    "children sort_short_lod \<noteq> []" "bounds (archetype sort_short_lod) \<noteq> []"
    by (simp_all add: sort_surplus_lod_def sort_short_lod_def sort_example_lod_def
        sort_example_children_def sort_example_bounds_def)
  have l: "length (bounds (archetype sort_surplus_lod)) = 4"
    by (simp add: sort_surplus_lod_def sort_example_lod_def sort_example_bounds_def)
  have s1: "sort_collisions (bounds (archetype sort_surplus_lod)) [(1, 0), (0, 1), (2, 2)]
              [None, None, None] = Inr [None, sort_example_bounds ! 0, sort_example_bounds ! 2]"
    by (simp add: sort_surplus_lod_def sort_example_lod_def sort_example_bounds_def)
  have s2: "sort_collisions (bounds (archetype sort_short_lod)) [(1, 0), (0, 1), (2, 2)]
              [None, None, None] = Inl IndexError"
    by (simp add: sort_short_lod_def sort_example_lod_def sort_example_bounds_def)
  have r3: "replicate 3 (None :: Bound option) = [None, None, None]"
    by (simp add: numeral_3_eq_3)
  have z: "zip [1, 0, 2] [0, 1, 2::nat] = [(1, 0), (0, 1), (2::nat, 2)]"
    by simp
  have 1: "sort_cols_and_children sort_surplus_lod =
     Inr (sort_surplus_lod
           \<lparr>children := [sort_example_children ! 1, sort_example_children ! 0, sort_example_children ! 2],
            archetype := (archetype sort_surplus_lod)
              \<lparr>bounds := [None, sort_example_bounds ! 0, sort_example_bounds ! 2]\<rparr>\<rparr>)"
    unfolding sort_cols_and_children_unfold [OF ne(1,2)] c n sort_example_order u r3 z s1
    by simp
  have 2: "sort_cols_and_children sort_short_lod = Inl IndexError"
    unfolding sort_cols_and_children_unfold [OF ne(3,4)] c n sort_example_order u r3 z s2
    by simp
  show ?thesis
    using ne l 1 2 by (intro conjI)
qed

section \<open>Properties of the archetype mass\<close>

lemma bound_centers_no_division: "bound_centers bs \<noteq> Inl ZeroDivisionError"
proof (induction bs)
  case Nil
  then show ?case by simp
next
  case (Cons b bs)
  then show ?case
    by (cases b; cases "bound_centers bs") auto
qed

lemma bound_centers_all_present:
  "\<forall>b \<in> set bs. b \<noteq> None \<Longrightarrow> bound_centers bs = Inr (map (\<lambda>b. bound_center (the b)) bs)"
  by (induction bs) auto

text \<open>
  Claim C4. \<open>calculate_archetype_mass_inertia\<close> never raises a division error; it returns
  whenever every collision bound is present; and whenever it returns, the archetype's mass
  is the sum of the children's pristine masses and its \<open>mass_inv\<close> is 0 if that sum is 0
  and 1 / mass otherwise.
\<close>

theorem archetype_mass_and_inverse:
  "calculate_archetype_mass_inertia ci vi lod \<noteq> Inl ZeroDivisionError \<and>
   ((\<forall>b \<in> set (bounds (archetype lod)). b \<noteq> None) \<longrightarrow>
      (\<exists>lod'. calculate_archetype_mass_inertia ci vi lod = Inr lod')) \<and>
   (\<forall>lod'. calculate_archetype_mass_inertia ci vi lod = Inr lod' \<longrightarrow>
      mass (archetype lod') = sum_list (map pristine_mass (children lod)) \<and>
      mass_inv (archetype lod') =
        (if sum_list (map pristine_mass (children lod)) = 0 then 0
         else 1 / sum_list (map pristine_mass (children lod))))"
proof (intro conjI allI impI)
  show "calculate_archetype_mass_inertia ci vi lod \<noteq> Inl ZeroDivisionError"
    using bound_centers_no_division [of "bounds (archetype lod)"]
    by (cases "bound_centers (bounds (archetype lod))")
       (simp_all add: calculate_archetype_mass_inertia_def Let_def)
next
  assume "\<forall>b \<in> set (bounds (archetype lod)). b \<noteq> None"
  from bound_centers_all_present [OF this]
  show "\<exists>lod'. calculate_archetype_mass_inertia ci vi lod = Inr lod'"
    by (simp add: calculate_archetype_mass_inertia_def Let_def)
next
  fix lod'
  assume r: "calculate_archetype_mass_inertia ci vi lod = Inr lod'"
  then obtain cgs where "bound_centers (bounds (archetype lod)) = Inr cgs"
    by (cases "bound_centers (bounds (archetype lod))")
       (simp_all add: calculate_archetype_mass_inertia_def Let_def)
  with r have a: "archetype lod' = (archetype lod)
      \<lparr>mass := sum_list (map pristine_mass (children lod)),
       mass_inv := (if sum_list (map pristine_mass (children lod)) \<noteq> 0
                    then 1 / sum_list (map pristine_mass (children lod)) else 0),
       arch_inertia_tensor := ci (position_offset lod) cgs (map pristine_mass (children lod))
          (map (\<lambda>child_xml. xyz (inertia_tensor child_xml)) (children lod)),
       arch_inertia_tensor_inv := vi (ci (position_offset lod) cgs (map pristine_mass (children lod))
          (map (\<lambda>child_xml. xyz (inertia_tensor child_xml)) (children lod)))\<rparr>"
    by (auto simp: calculate_archetype_mass_inertia_def Let_def)
  show "mass (archetype lod') = sum_list (map pristine_mass (children lod))"
    unfolding a by simp
  show "mass_inv (archetype lod') =
        (if sum_list (map pristine_mass (children lod)) = 0 then 0
         else 1 / sum_list (map pristine_mass (children lod)))"
    unfolding a by simp
qed

text \<open>Total mass 0 gives inverse 0; masses 2 and 3.5 give 5.5 and 2/11.\<close>

theorem archetype_mass_and_inverse_witness:
  "(\<exists>lod'. calculate_archetype_mass_inertia (\<lambda>_ _ _ _. Vector 1 1 1) id (mass_example_lod 0 0) = Inr lod'
       \<and> mass (archetype lod') = 0 \<and> mass_inv (archetype lod') = 0) \<and>
   (\<exists>lod'. calculate_archetype_mass_inertia (\<lambda>_ _ _ _. Vector 1 1 1) id (mass_example_lod 2 (7 / 2)) = Inr lod'
       \<and> mass (archetype lod') = 11 / 2 \<and> mass_inv (archetype lod') = 2 / 11)"
proof -
  have b: "\<forall>b \<in> set (bounds (archetype (mass_example_lod m1 m2))). b \<noteq> None" for m1 m2
    by (simp add: mass_example_lod_def)
  have c: "children (mass_example_lod m1 m2) =
      [\<lparr>group_index = 0, bone_tag = 10, pristine_mass = m1, inertia_tensor = Vector4 1 1 1 1\<rparr>,
       \<lparr>group_index = 0, bone_tag = 20, pristine_mass = m2, inertia_tensor = Vector4 1 1 1 1\<rparr>]" for m1 m2
    by (simp add: mass_example_lod_def)
  note t = archetype_mass_and_inverse [of "\<lambda>_ _ _ _. Vector 1 1 1" id]
  from t [of "mass_example_lod 0 0"] b [of 0 0]
  have 1: "\<exists>lod'. calculate_archetype_mass_inertia (\<lambda>_ _ _ _. Vector 1 1 1) id (mass_example_lod 0 0) = Inr lod'
       \<and> mass (archetype lod') = 0 \<and> mass_inv (archetype lod') = 0"
    unfolding c by fastforce
  from t [of "mass_example_lod 2 (7 / 2)"] b [of 2 "7 / 2"]
  have 2: "\<exists>lod'. calculate_archetype_mass_inertia (\<lambda>_ _ _ _. Vector 1 1 1) id (mass_example_lod 2 (7 / 2)) = Inr lod'
       \<and> mass (archetype lod') = 11 / 2 \<and> mass_inv (archetype lod') = 2 / 11"
    unfolding c by fastforce
  show ?thesis
    using 1 2 by (rule conjI)
qed

section \<open>Properties of the cloth vertex reindexing\<close>

lemma reindex_loop_append:
  "reindex_loop pinned (xs @ ys) st =
     (case reindex_loop pinned xs st of Inl e \<Rightarrow> Inl e | Inr st' \<Rightarrow> reindex_loop pinned ys st')"
proof (induction xs arbitrary: st)
  case Nil
  then show ?case by simp
next
  case (Cons x xs)
  then show ?case
    by (cases "reindex_step pinned x st") simp_all
qed

lemma num_pinned_as_filter:
  "num_pinned_of pinned = length (filter (\<lambda>j. pinned ! j) [0..<length pinned])"
proof -
  have "filter (\<lambda>p. p) pinned = map ((!) pinned) (filter (\<lambda>j. pinned ! j) [0..<length pinned])"
  proof -
    have "map ((!) pinned) (filter (\<lambda>j. pinned ! j) [0..<length pinned]) =
        filter (\<lambda>p. p) (map ((!) pinned) [0..<length pinned])"
      by (simp add: filter_map comp_def)
    then show ?thesis
      by (simp add: map_nth)
  qed
  then show ?thesis
    by (simp add: num_pinned_of_def)
qed

lemma filter_upt_split:
  assumes "i \<le> n"
  shows "filter P [0..<n] = filter P [0..<i] @ filter P [i..<n]"
proof -
  have "[0..<n] = [0..<i] @ [i..<n]"
    using assms by (metis le_add_diff_inverse upt_add_eq_append zero_le)
  then show ?thesis
    by (metis filter_append)
qed

lemma filter_upt_at:
  assumes "i < n" "P i"
  shows "filter P [0..<n] = filter P [0..<i] @ i # filter P [Suc i..<n]"
proof -
  have "[i..<n] = i # [Suc i..<n]"
    using assms(1) by (rule upt_conv_Cons)
  then show ?thesis
    using filter_upt_split [of i n P] assms by simp
qed

lemma pinned_count_split:
  "length (filter (\<lambda>j. pinned ! j) [0..<i]) + length (filter (\<lambda>j. \<not> pinned ! j) [0..<i]) = i"
  using sum_length_filter_compl [of "\<lambda>j. pinned ! j" "[0..<i]"] by simp

lemma filter_upt_grows:
  assumes "i < n" "P i"
  shows "length (filter P [0..<i]) < length (filter P [0..<n])"
  unfolding filter_upt_at [of i n P, OF assms] by simp

lemma pinned_before_less:
  assumes "i < length pinned" "pinned ! i"
  shows "length (filter (\<lambda>j. pinned ! j) [0..<i]) < num_pinned_of pinned"
  unfolding num_pinned_as_filter
  using filter_upt_grows [of i "length pinned" "\<lambda>j. pinned ! j"] assms by simp

lemma unpinned_before_less:
  assumes "i < length pinned" "\<not> pinned ! i"
  shows "length (filter (\<lambda>j. \<not> pinned ! j) [0..<i]) < length pinned - num_pinned_of pinned"
proof -
  have "length (filter (\<lambda>j. \<not> pinned ! j) [0..<i]) < length (filter (\<lambda>j. \<not> pinned ! j) [0..<length pinned])"
    using filter_upt_grows [of i "length pinned" "\<lambda>j. \<not> pinned ! j"] assms by simp
  moreover have "length (filter (\<lambda>j. \<not> pinned ! j) [0..<length pinned]) = length pinned - num_pinned_of pinned"
    using pinned_count_split [of pinned "length pinned"] by (simp add: num_pinned_as_filter)
  ultimately show ?thesis by simp
qed

lemma update_first_gap:
  assumes "0 < m"
  shows "(A @ replicate m None @ B)[length A := Some x] = (A @ [Some x]) @ replicate (m - 1) None @ B"
proof -
  obtain m' where m: "m = Suc m'"
    using assms by (cases m) simp_all
  show ?thesis
    by (simp add: m list_update_append)
qed

lemma update_second_gap:
  assumes "0 < m" "p = length A + length R + length B"
  shows "(A @ R @ B @ replicate m None)[p := Some x] = A @ R @ (B @ [Some x]) @ replicate (m - 1) None"
proof -
  have "(A @ R @ B @ replicate m None) = (A @ R @ B) @ replicate m None @ []"
    by simp
  also have "\<dots>[p := Some x] = ((A @ R @ B) @ [Some x]) @ replicate (m - 1) None @ []"
  proof -
    have "p = length (A @ R @ B)"
      by (simp add: assms(2))
    then show ?thesis
      by (simp only: update_first_gap [OF assms(1)])
  qed
  finally show ?thesis by simp
qed


lemma seg_update_pinned:
  assumes "length ps < k"
  shows "(map F ps @ replicate (k - length ps) None @ R)[length ps := Some x] =
         (map F ps @ [Some x]) @ replicate (k - Suc (length ps)) None @ R"
  using update_first_gap [of "k - length ps" "map F ps" R x] assms by simp

lemma seg_update_unpinned:
  assumes "length ps \<le> k" "length us < m"
  shows "(map F ps @ replicate (k - length ps) None @ map F us @ replicate (m - length us) None)
            [k + length us := Some x] =
         map F ps @ replicate (k - length ps) None @ (map F us @ [Some x]) @
            replicate (m - Suc (length us)) None"
  using update_second_gap [of "m - length us" "k + length us" "map F ps"
      "replicate (k - length ps) None" "map F us" x] assms
  by simp

lemma seg_length:
  assumes "length ps \<le> k" "length us \<le> m"
  shows "length (map F ps @ replicate (k - length ps) None @ map F us @ replicate (m - length us) None)
         = k + m"
  using assms by simp

lemma filter_upt_Suc:
  "filter P [0..<Suc i] = (if P i then filter P [0..<i] @ [i] else filter P [0..<i])"
  by simp

lemma pinned_before_le:
  assumes "i \<le> length pinned"
  shows "length (filter (\<lambda>j. pinned ! j) [0..<i]) \<le> num_pinned_of pinned"
  unfolding num_pinned_as_filter filter_upt_split [OF assms, of "\<lambda>j. pinned ! j"] by simp

lemma unpinned_before_le:
  assumes "i \<le> length pinned"
  shows "length (filter (\<lambda>j. \<not> pinned ! j) [0..<i]) \<le> length pinned - num_pinned_of pinned"
proof -
  have "length (filter (\<lambda>j. \<not> pinned ! j) [0..<i]) \<le> length (filter (\<lambda>j. \<not> pinned ! j) [0..<length pinned])"
    unfolding filter_upt_split [OF assms, of "\<lambda>j. \<not> pinned ! j"] by simp
  moreover have "length (filter (\<lambda>j. \<not> pinned ! j) [0..<length pinned]) = length pinned - num_pinned_of pinned"
    using pinned_count_split [of pinned "length pinned"] by (simp add: num_pinned_as_filter)
  ultimately show ?thesis by simp
qed

lemma num_pinned_le: "num_pinned_of pinned \<le> length pinned"
  by (simp add: num_pinned_of_def)

lemma reindex_step_after:
  assumes n: "length pinned = length verts" and i: "i < length verts"
  shows "reindex_step pinned (i, verts ! i) (reindex_state_after pinned verts i) =
         Inr (reindex_state_after pinned verts (Suc i))"
proof -
  define k where "k = num_pinned_of pinned"
  define m where "m = length verts - k"
  define ps where "ps = filter (\<lambda>j. pinned ! j) [0..<i]"
  define us where "us = filter (\<lambda>j. \<not> pinned ! j) [0..<i]"
  have km: "k + m = length verts"
    using num_pinned_le [of pinned] by (simp add: k_def m_def n)
  have ple: "length ps \<le> k" and ule: "length us \<le> m"
    using pinned_before_le [of i pinned] unpinned_before_le [of i pinned] i
    by (simp_all add: ps_def us_def k_def m_def n)
  have st: "reindex_state_after pinned verts i =
      \<lparr>cloth_pin_index = length ps,
       cloth_unpin_index = k + length us,
       cloth_vertices =
         map (\<lambda>j. Some (verts ! j)) ps @ replicate (k - length ps) None @
         map (\<lambda>j. Some (verts ! j)) us @ replicate (m - length us) None,
       mesh_to_cloth_vertex_map =
         map (\<lambda>j. Some (cloth_index_of pinned j)) [0..<i] @ replicate (length verts - i) None,
       cloth_to_mesh_vertex_map =
         map Some ps @ replicate (k - length ps) None @
         map Some us @ replicate (m - length us) None\<rparr>"
    by (simp add: reindex_state_after_def Let_def k_def m_def ps_def us_def)
  have m2c: "(map (\<lambda>j. Some (cloth_index_of pinned j)) [0..<i] @ replicate (length verts - i) None)
        [i := Some (cloth_index_of pinned i)] =
      map (\<lambda>j. Some (cloth_index_of pinned j)) [0..<Suc i] @ replicate (length verts - Suc i) None"
    using update_first_gap [of "length verts - i" "map (\<lambda>j. Some (cloth_index_of pinned j)) [0..<i]" "[]"
        "cloth_index_of pinned i"] i
    by simp
  have len: "length (map (F::nat \<Rightarrow> 'b option) ps @ replicate (k - length ps) None @
         map F us @ replicate (m - length us) None) = length verts" for F
    using seg_length [OF ple ule, of F] km by simp
  show ?thesis
  proof (cases "pinned ! i")
    case True
    have lt: "length ps < k"
      using pinned_before_less [of i pinned] i True by (simp add: ps_def k_def n)
    have vi: "cloth_index_of pinned i = length ps"
      using True by (simp add: cloth_index_of_def ps_def)
    have ps': "filter (\<lambda>j. pinned ! j) [0..<Suc i] = ps @ [i]"
      and us': "filter (\<lambda>j. \<not> pinned ! j) [0..<Suc i] = us"
      using True by (simp_all add: ps_def us_def)
    have st': "reindex_state_after pinned verts (Suc i) =
      \<lparr>cloth_pin_index = Suc (length ps),
       cloth_unpin_index = k + length us,
       cloth_vertices =
         (map (\<lambda>j. Some (verts ! j)) ps @ [Some (verts ! i)]) @ replicate (k - Suc (length ps)) None @
         map (\<lambda>j. Some (verts ! j)) us @ replicate (m - length us) None,
       mesh_to_cloth_vertex_map =
         map (\<lambda>j. Some (cloth_index_of pinned j)) [0..<Suc i] @ replicate (length verts - Suc i) None,
       cloth_to_mesh_vertex_map =
         (map Some ps @ [Some i]) @ replicate (k - Suc (length ps)) None @
         map Some us @ replicate (m - length us) None\<rparr>"
      unfolding reindex_state_after_def Let_def ps' us'
      by (simp add: k_def m_def)
    show ?thesis
      unfolding st st' reindex_step_def
      using True i lt
      by (simp add: Let_def n len km seg_update_pinned [OF lt] m2c [unfolded vi]
          del: replicate_Suc upt_Suc append_assoc)
  next
    case False
    have lt: "length us < m"
      using unpinned_before_less [of i pinned] i False by (simp add: us_def k_def m_def n)
    have vi: "cloth_index_of pinned i = k + length us"
      using False by (simp add: cloth_index_of_def us_def k_def)
    have ps': "filter (\<lambda>j. pinned ! j) [0..<Suc i] = ps"
      and us': "filter (\<lambda>j. \<not> pinned ! j) [0..<Suc i] = us @ [i]"
      using False by (simp_all add: ps_def us_def)
    have st': "reindex_state_after pinned verts (Suc i) =
      \<lparr>cloth_pin_index = length ps,
       cloth_unpin_index = Suc (k + length us),
       cloth_vertices =
         map (\<lambda>j. Some (verts ! j)) ps @ replicate (k - length ps) None @
         (map (\<lambda>j. Some (verts ! j)) us @ [Some (verts ! i)]) @ replicate (m - Suc (length us)) None,
       mesh_to_cloth_vertex_map =
         map (\<lambda>j. Some (cloth_index_of pinned j)) [0..<Suc i] @ replicate (length verts - Suc i) None,
       cloth_to_mesh_vertex_map =
         map Some ps @ replicate (k - length ps) None @
         (map Some us @ [Some i]) @ replicate (m - Suc (length us)) None\<rparr>"
      unfolding reindex_state_after_def Let_def ps' us'
      by (simp add: k_def m_def)
    show ?thesis
      unfolding st st' reindex_step_def
      using False i lt km
      by (simp add: Let_def n len seg_update_unpinned [OF ple lt] m2c [unfolded vi]
          del: replicate_Suc upt_Suc append_assoc)
  qed
qed


lemma reindex_loop_prefix:
  assumes "length pinned = length verts" "i \<le> length verts"
  shows "reindex_loop pinned (take i (enumerate 0 verts)) (reindex_state_after pinned verts 0) =
         Inr (reindex_state_after pinned verts i)"
  using assms(2)
proof (induction i)
  case 0
  then show ?case by simp
next
  case (Suc i)
  then have i: "i < length verts"
    by simp
  have "take (Suc i) (enumerate 0 verts) = take i (enumerate 0 verts) @ [(i, verts ! i)]"
    using i by (simp add: take_Suc_conv_app_nth nth_enumerate_eq)
  then show ?case
    using Suc.IH i by (simp add: reindex_loop_append reindex_step_after [OF assms(1) i])
qed

lemma reindex_vertices_eq:
  assumes "length pinned = length verts"
  shows "reindex_vertices pinned verts = Inr (reindex_state_after pinned verts (length verts))"
proof -
  have r: "replicate (num_pinned_of pinned) None @ replicate (length verts - num_pinned_of pinned) None
      = replicate (length verts) (None :: 'b option)" for dummy :: 'b
    using num_pinned_le [of pinned] by (simp add: assms replicate_add [symmetric])
  have init: "reindex_state_after pinned verts 0 =
        \<lparr>cloth_pin_index = 0,
         cloth_unpin_index = num_pinned_of pinned,
         cloth_vertices = replicate (length verts) None,
         mesh_to_cloth_vertex_map = replicate (length verts) None,
         cloth_to_mesh_vertex_map = replicate (length verts) None\<rparr>"
    unfolding reindex_state_after_def Let_def by (simp add: r)
  show ?thesis
    using reindex_loop_prefix [OF assms, of "length verts"]
    by (simp add: reindex_vertices_def Let_def init)
qed

lemma reindex_state_final:
  assumes "length pinned = length verts"
  shows "mesh_to_cloth_vertex_map (reindex_state_after pinned verts (length verts)) =
           map Some (map (cloth_index_of pinned) [0..<length verts])"
    and "cloth_to_mesh_vertex_map (reindex_state_after pinned verts (length verts)) =
           map Some (cloth_order pinned (length verts))"
    and "cloth_vertices (reindex_state_after pinned verts (length verts)) =
           map (\<lambda>j. Some (verts ! j)) (cloth_order pinned (length verts))"
proof -
  have k: "length (filter (\<lambda>j. pinned ! j) [0..<length verts]) = num_pinned_of pinned"
    by (simp add: num_pinned_as_filter assms)
  have u: "length (filter (\<lambda>j. \<not> pinned ! j) [0..<length verts]) = length verts - num_pinned_of pinned"
    using pinned_count_split [of pinned "length verts"] k by simp
  show "mesh_to_cloth_vertex_map (reindex_state_after pinned verts (length verts)) =
           map Some (map (cloth_index_of pinned) [0..<length verts])"
    by (simp add: reindex_state_after_def Let_def)
  show "cloth_to_mesh_vertex_map (reindex_state_after pinned verts (length verts)) =
           map Some (cloth_order pinned (length verts))"
    by (simp add: reindex_state_after_def Let_def k u cloth_order_def)
  show "cloth_vertices (reindex_state_after pinned verts (length verts)) =
           map (\<lambda>j. Some (verts ! j)) (cloth_order pinned (length verts))"
    by (simp add: reindex_state_after_def Let_def k u cloth_order_def)
qed

lemma cloth_index_of_less:
  assumes "i < length pinned"
  shows "cloth_index_of pinned i < length pinned"
proof (cases "pinned ! i")
  case True
  then show ?thesis
    using pinned_before_less [OF assms] num_pinned_le [of pinned] by (simp add: cloth_index_of_def)
next
  case False
  then show ?thesis
    using unpinned_before_less [OF assms] num_pinned_le [of pinned] by (simp add: cloth_index_of_def)
qed

lemma cloth_index_of_pinned_iff:
  assumes "i < length pinned"
  shows "pinned ! i \<longleftrightarrow> cloth_index_of pinned i < num_pinned_of pinned"
  using pinned_before_less [OF assms] by (auto simp: cloth_index_of_def)

lemma cloth_order_at_index:
  assumes "i < length pinned"
  shows "cloth_order pinned (length pinned) ! cloth_index_of pinned i = i"
proof (cases "pinned ! i")
  case True
  let ?F = "filter (\<lambda>j. pinned ! j) [0..<length pinned]"
  have F: "?F = filter (\<lambda>j. pinned ! j) [0..<i] @ i # filter (\<lambda>j. pinned ! j) [Suc i..<length pinned]"
    using filter_upt_at [of i "length pinned" "\<lambda>j. pinned ! j"] assms True by simp
  have lt: "cloth_index_of pinned i < length ?F"
    using pinned_before_less [OF assms True] True
    by (simp add: cloth_index_of_def num_pinned_as_filter)
  have "?F ! cloth_index_of pinned i = i"
    using True by (subst F) (simp add: cloth_index_of_def nth_append)
  then show ?thesis
    using lt by (simp add: cloth_order_def nth_append)
next
  case False
  let ?F = "filter (\<lambda>j. pinned ! j) [0..<length pinned]"
  let ?G = "filter (\<lambda>j. \<not> pinned ! j) [0..<length pinned]"
  have G: "?G = filter (\<lambda>j. \<not> pinned ! j) [0..<i] @ i # filter (\<lambda>j. \<not> pinned ! j) [Suc i..<length pinned]"
    using filter_upt_at [of i "length pinned" "\<lambda>j. \<not> pinned ! j"] assms False by simp
  have "?G ! length (filter (\<lambda>j. \<not> pinned ! j) [0..<i]) = i"
    by (subst G) (simp add: nth_append)
  moreover have "length ?F = num_pinned_of pinned"
    by (simp add: num_pinned_as_filter)
  ultimately show ?thesis
    using False by (simp add: cloth_order_def cloth_index_of_def nth_append)
qed

lemma cloth_order_perm:
  "mset (cloth_order pinned n) = mset [0..<n]"
  "distinct (cloth_order pinned n)"
  "set (cloth_order pinned n) = {0..<n}"
  "length (cloth_order pinned n) = n"
proof -
  show m: "mset (cloth_order pinned n) = mset [0..<n]"
    unfolding cloth_order_def by (simp del: mset_upt)
  show "distinct (cloth_order pinned n)"
    using m by (metis distinct_upt mset_eq_imp_distinct_iff)
  show "set (cloth_order pinned n) = {0..<n}"
    using m by (metis atLeastLessThan_upt mset_eq_setD)
  show "length (cloth_order pinned n) = n"
    using m by (metis length_upt mset_eq_length minus_nat.diff_0)
qed

lemma cloth_index_of_mono:
  assumes "i < j" "j < length pinned" "pinned ! i \<longleftrightarrow> pinned ! j"
  shows "cloth_index_of pinned i < cloth_index_of pinned j"
proof (cases "pinned ! i")
  case True
  then show ?thesis
    using assms filter_upt_grows [of i j "\<lambda>j. pinned ! j"] by (simp add: cloth_index_of_def)
next
  case False
  then show ?thesis
    using assms filter_upt_grows [of i j "\<lambda>j. \<not> pinned ! j"] by (simp add: cloth_index_of_def)
qed

lemma cloth_index_of_order:
  assumes "j < length pinned"
  shows "cloth_index_of pinned (cloth_order pinned (length pinned) ! j) = j"
proof -
  let ?c = "cloth_order pinned (length pinned)"
  have "?c ! j \<in> set ?c"
    using assms by (simp add: cloth_order_perm(4))
  then have i: "?c ! j < length pinned"
    by (simp add: cloth_order_perm(3))
  have "?c ! cloth_index_of pinned (?c ! j) = ?c ! j"
    by (rule cloth_order_at_index [OF i])
  moreover have "cloth_index_of pinned (?c ! j) < length ?c"
    using cloth_index_of_less [OF i] by (simp add: cloth_order_perm(4))
  ultimately show ?thesis
    using assms cloth_order_perm(2) [of pinned "length pinned"]
    by (simp add: nth_eq_iff_index_eq cloth_order_perm(4))
qed


text \<open>
  Claim C7. For a cloth mesh with \<open>n\<close> vertices of which \<open>k\<close> are pinned (one pinned
  value per vertex), the vertex reindexing of \<open>create_frag_env_cloth\<close> gives the pinned
  vertices the cloth indices below \<open>k\<close> and the others the cloth indices from \<open>k\<close> to
  \<open>n\<close>, each part in mesh order, and the two maps it fills are inverse bijections on the
  indices below \<open>n\<close>.
\<close>

theorem cloth_vertex_reindexing:
  assumes "length pinned = length verts"
  shows "\<exists>st. reindex_vertices pinned verts = Inr st \<and>
     (let n = length verts; k = num_pinned_of pinned;
          m2c = map (cloth_index_of pinned) [0..<n]; c2m = cloth_order pinned n
      in mesh_to_cloth_vertex_map st = map Some m2c \<and>
         cloth_to_mesh_vertex_map st = map Some c2m \<and>
         cloth_vertices st = map (\<lambda>j. Some (verts ! j)) c2m \<and>
         c2m = filter (\<lambda>i. pinned ! i) [0..<n] @ filter (\<lambda>i. \<not> pinned ! i) [0..<n] \<and>
         length c2m = n \<and>
         (\<forall>i<n. m2c ! i < n \<and> c2m ! (m2c ! i) = i) \<and>
         (\<forall>j<n. c2m ! j < n \<and> m2c ! (c2m ! j) = j) \<and>
         (\<forall>i<n. pinned ! i \<longleftrightarrow> m2c ! i < k) \<and>
         (\<forall>i j. i < j \<and> j < n \<and> (pinned ! i \<longleftrightarrow> pinned ! j) \<longrightarrow> m2c ! i < m2c ! j))"
proof -
  let ?n = "length verts"
  let ?st = "reindex_state_after pinned verts ?n"
  let ?c = "cloth_order pinned ?n"
  have n: "length pinned = ?n"
    by (rule assms)
  have in_range: "?c ! j < ?n" if "j < ?n" for j
  proof -
    have "?c ! j \<in> set ?c"
      using that by (simp add: cloth_order_perm(4))
    then show ?thesis
      by (simp add: cloth_order_perm(3))
  qed
  show ?thesis
    unfolding Let_def
  proof (intro exI [of _ ?st] conjI allI impI)
    show "reindex_vertices pinned verts = Inr ?st"
      by (rule reindex_vertices_eq [OF assms])
    show "mesh_to_cloth_vertex_map ?st = map Some (map (cloth_index_of pinned) [0..<?n])"
      by (rule reindex_state_final [OF assms])
    show "cloth_to_mesh_vertex_map ?st = map Some ?c"
      by (rule reindex_state_final [OF assms])
    show "cloth_vertices ?st = map (\<lambda>j. Some (verts ! j)) ?c"
      by (rule reindex_state_final [OF assms])
    show "?c = filter (\<lambda>i. pinned ! i) [0..<?n] @ filter (\<lambda>i. \<not> pinned ! i) [0..<?n]"
      by (rule cloth_order_def)
    show "length ?c = ?n"
      by (rule cloth_order_perm)
    show "map (cloth_index_of pinned) [0..<?n] ! i < ?n" if "i < ?n" for i
      using that cloth_index_of_less [of i pinned] by (simp add: n)
    show "?c ! (map (cloth_index_of pinned) [0..<?n] ! i) = i" if "i < ?n" for i
      using that cloth_order_at_index [of i pinned] by (simp add: n)
    show "?c ! j < ?n" if "j < ?n" for j
      by (rule in_range [OF that])
    show "map (cloth_index_of pinned) [0..<?n] ! (?c ! j) = j" if "j < ?n" for j
      using that in_range [OF that] cloth_index_of_order [of j pinned] by (simp add: n)
    show "pinned ! i \<longleftrightarrow> map (cloth_index_of pinned) [0..<?n] ! i < num_pinned_of pinned"
      if "i < ?n" for i
      using that cloth_index_of_pinned_iff [of i pinned] by (simp add: n)
    show "map (cloth_index_of pinned) [0..<?n] ! i < map (cloth_index_of pinned) [0..<?n] ! j"
      if "i < j \<and> j < ?n \<and> (pinned ! i \<longleftrightarrow> pinned ! j)" for i j
      using that cloth_index_of_mono [of i j pinned] by (simp add: n)
  qed
qed

lemma upt_5: "[0..<5] = [0, 1, 2, 3, 4::nat]"
  by (simp add: upt_rec)

lemma pin_example_maps:
  "num_pinned_of pin_example_pinned = 2"
  "cloth_order pin_example_pinned 5 = [1, 3, 0, 2, 4]"
  "map (cloth_index_of pin_example_pinned) [0..<5] = [2, 0, 3, 1, 4]"
proof -
  show k: "num_pinned_of pin_example_pinned = 2"
    by (simp add: num_pinned_of_def pin_example_pinned_def pinned_array_def)
  show "cloth_order pin_example_pinned 5 = [1, 3, 0, 2, 4]"
    by (simp add: cloth_order_def upt_5 pin_example_pinned_def pinned_array_def)
  have u: "[0..<4] = [0, 1, 2, 3::nat]" "[0..<3] = [0, 1, 2::nat]" "[0..<2] = [0, 1::nat]"
    "[0..<1] = [0::nat]"
    by (simp_all add: upt_rec)
  have p: "pin_example_pinned = [False, True, False, True, False]"
    by (simp add: pin_example_pinned_def pinned_array_def)
  have "cloth_index_of pin_example_pinned 0 = 2" "cloth_index_of pin_example_pinned 1 = 0"
    "cloth_index_of pin_example_pinned 2 = 3" "cloth_index_of pin_example_pinned 3 = 1"
    "cloth_index_of pin_example_pinned 4 = 4"
    unfolding cloth_index_of_def k u by (simp_all add: p)
  then show "map (cloth_index_of pin_example_pinned) [0..<5] = [2, 0, 3, 1, 4]"
    by (simp add: upt_5)
qed

text \<open>Five vertices with 1 and 3 pinned: cloth indices 0 and 1 hold mesh vertices 1 and 3.\<close>

theorem cloth_vertex_reindexing_witness:
  "\<exists>st. reindex_vertices pin_example_pinned pin_example_vertices = Inr st \<and>
     mesh_to_cloth_vertex_map st = [Some 2, Some 0, Some 3, Some 1, Some 4] \<and>
     cloth_to_mesh_vertex_map st = [Some 1, Some 3, Some 0, Some 2, Some 4] \<and>
     num_pinned_of pin_example_pinned = 2"
proof -
  have l: "length pin_example_pinned = length pin_example_vertices"
    and n: "length pin_example_vertices = 5"
    by (simp_all add: pin_example_pinned_def pinned_array_def pin_example_vertices_def)
  from cloth_vertex_reindexing [OF l]
  obtain st where "reindex_vertices pin_example_pinned pin_example_vertices = Inr st"
    and "mesh_to_cloth_vertex_map st = map Some [2, 0, 3, 1, 4]"
    and "cloth_to_mesh_vertex_map st = map Some [1, 3, 0, 2, 4]"
    unfolding Let_def n pin_example_maps by (elim exE conjE)
  then show ?thesis
    by (simp add: pin_example_maps)
qed

section \<open>Properties of the cloth edge construction\<close>

lemma get_filled_m2c:
  assumes "length pinned = length verts" "a < length verts"
  shows "get_filled (mesh_to_cloth_vertex_map (reindex_state_after pinned verts (length verts))) a =
         Inr (cloth_index_of pinned a)"
  using assms(2) by (simp add: reindex_state_final(1) [OF assms(1)] get_filled_def)

lemma get_filled_cloth_vertex:
  assumes "length pinned = length verts" "a < length verts"
  shows "get_filled (cloth_vertices (reindex_state_after pinned verts (length verts)))
           (cloth_index_of pinned a) = Inr (verts ! a)"
proof -
  have "cloth_index_of pinned a < length verts"
    using cloth_index_of_less [of a pinned] assms by simp
  moreover have "cloth_order pinned (length verts) ! cloth_index_of pinned a = a"
    using cloth_order_at_index [of a pinned] assms by simp
  ultimately show ?thesis
    by (simp add: reindex_state_final(3) [OF assms(1)] get_filled_def cloth_order_perm(4))
qed

lemma add_triangle_edge_eq:
  assumes n: "length pinned = length verts" and a: "a < length verts" and b: "b < length verts"
  shows "add_triangle_edge pinned (reindex_state_after pinned verts (length verts)) (a, b)
           (map (cloth_edge_of pinned verts) seen, set seen) =
         Inr (map (cloth_edge_of pinned verts) (seen @ emitted_pairs pinned seen [(a, b)]),
              set (seen @ emitted_pairs pinned seen [(a, b)]))"
proof (cases "(a, b) \<in> set seen \<or> (b, a) \<in> set seen \<or> (pinned ! a \<and> pinned ! b)")
  case True
  then show ?thesis
    using a b by (auto simp: add_triangle_edge_def n)
next
  case False
  then show ?thesis
    using a b
    by (simp add: add_triangle_edge_def n get_filled_m2c [OF n] get_filled_cloth_vertex [OF n]
        cloth_edge_of_def length_squared_diff_def)
qed

lemma emitted_pairs_append:
  "emitted_pairs pinned seen (xs @ ys) =
     emitted_pairs pinned seen xs @ emitted_pairs pinned (seen @ emitted_pairs pinned seen xs) ys"
proof (induction xs arbitrary: seen)
  case Nil
  then show ?case by simp
next
  case (Cons x xs)
  obtain a b where x: "x = (a, b)" by (cases x)
  show ?case
    by (simp add: x Cons.IH)
qed

lemma add_edges_eq:
  assumes n: "length pinned = length verts"
    and "\<forall>(a, b) \<in> set sides. a < length verts \<and> b < length verts"
  shows "add_edges pinned (reindex_state_after pinned verts (length verts)) sides
           (map (cloth_edge_of pinned verts) seen, set seen) =
         Inr (map (cloth_edge_of pinned verts) (seen @ emitted_pairs pinned seen sides),
              set (seen @ emitted_pairs pinned seen sides))"
  using assms(2)
proof (induction sides arbitrary: seen)
  case Nil
  then show ?case by simp
next
  case (Cons x sides)
  obtain a b where x: "x = (a, b)" by (cases x)
  have ab: "a < length verts" "b < length verts"
    using Cons.prems by (simp_all add: x)
  have rest: "\<forall>(a, b) \<in> set sides. a < length verts \<and> b < length verts"
    using Cons.prems by simp
  have e: "emitted_pairs pinned seen ((a, b) # sides) =
      emitted_pairs pinned seen [(a, b)] @
        emitted_pairs pinned (seen @ emitted_pairs pinned seen [(a, b)]) sides"
    using emitted_pairs_append [of pinned seen "[(a, b)]" sides] by simp
  show ?case
    unfolding x e
    using Cons.IH [OF rest, of "seen @ emitted_pairs pinned seen [(a, b)]"]
    by (simp only: add_edges.simps add_triangle_edge_eq [OF n ab] sum.case append_assoc)
qed

lemma triangle_pairs_in_range:
  assumes "\<forall>(v0, v1, v2) \<in> set tris. v0 < n \<and> v1 < n \<and> v2 < n"
  shows "\<forall>(a, b) \<in> set (triangle_pairs tris). a < n \<and> b < n"
  using assms by (fastforce simp: triangle_pairs_def)

lemma build_edges_eq:
  assumes "length pinned = length verts"
    and "\<forall>(v0, v1, v2) \<in> set tris. v0 < length verts \<and> v1 < length verts \<and> v2 < length verts"
  shows "build_edges pinned (reindex_state_after pinned verts (length verts)) tris =
         Inr (map (cloth_edge_of pinned verts) (emitted_pairs pinned [] (triangle_pairs tris)))"
  using add_edges_eq [OF assms(1) triangle_pairs_in_range [OF assms(2)], of "[]"]
  by (simp add: build_edges_def)

lemma emitted_pairs_subset: "set (emitted_pairs pinned seen sides) \<subseteq> set sides"
proof (induction sides arbitrary: seen)
  case Nil
  then show ?case by simp
next
  case (Cons x sides)
  obtain a b where x: "x = (a, b)" by (cases x)
  show ?case
    using Cons.IH [of seen] Cons.IH [of "seen @ [(a, b)]"] by (auto simp: x)
qed

lemma emitted_pairs_length: "length (emitted_pairs pinned seen sides) \<le> length sides"
proof (induction sides arbitrary: seen)
  case Nil
  then show ?case by simp
next
  case (Cons x sides)
  obtain a b where x: "x = (a, b)" by (cases x)
  show ?case
    using Cons.IH [of seen] Cons.IH [of "seen @ [(a, b)]"] by (simp add: x)
qed

lemma emitted_pairs_not_pinned:
  "(a, b) \<in> set (emitted_pairs pinned seen sides) \<Longrightarrow> \<not> (pinned ! a \<and> pinned ! b)"
proof (induction sides arbitrary: seen)
  case Nil
  then show ?case by simp
next
  case (Cons x sides)
  obtain c d where x: "x = (c, d)" by (cases x)
  show ?case
    using Cons.prems Cons.IH [of seen] Cons.IH [of "seen @ [(c, d)]"]
    by (auto simp: x split: if_splits)
qed

lemma emitted_pairs_fresh:
  "(a, b) \<in> set (emitted_pairs pinned seen sides) \<Longrightarrow> (a, b) \<notin> set seen \<and> (b, a) \<notin> set seen"
proof (induction sides arbitrary: seen)
  case Nil
  then show ?case by simp
next
  case (Cons x sides)
  obtain c d where x: "x = (c, d)" by (cases x)
  show ?case
    using Cons.prems Cons.IH [of seen] Cons.IH [of "seen @ [(c, d)]"]
    by (auto simp: x split: if_splits)
qed

lemma emitted_pairs_distinct: "distinct (emitted_pairs pinned seen sides)"
proof (induction sides arbitrary: seen)
  case Nil
  then show ?case by simp
next
  case (Cons x sides)
  obtain c d where x: "x = (c, d)" by (cases x)
  show ?case
    using Cons.IH [of seen] Cons.IH [of "seen @ [(c, d)]"]
      emitted_pairs_fresh [of c d pinned "seen @ [(c, d)]" sides]
    by (auto simp: x)
qed

lemma emitted_pairs_one_orientation:
  "(a, b) \<in> set (emitted_pairs pinned seen sides) \<Longrightarrow> a \<noteq> b \<Longrightarrow>
   (b, a) \<notin> set (emitted_pairs pinned seen sides)"
proof (induction sides arbitrary: seen)
  case Nil
  then show ?case by simp
next
  case (Cons x sides)
  obtain c d where x: "x = (c, d)" by (cases x)
  show ?case
    using Cons.prems Cons.IH [of seen] Cons.IH [of "seen @ [(c, d)]"]
      emitted_pairs_fresh [of a b pinned "seen @ [(c, d)]" sides]
      emitted_pairs_fresh [of b a pinned "seen @ [(c, d)]" sides]
    by (auto simp: x split: if_splits)
qed

lemma emitted_pairs_complete:
  "(a, b) \<in> set sides \<Longrightarrow> \<not> (pinned ! a \<and> pinned ! b) \<Longrightarrow>
   (a, b) \<in> set seen \<union> set (emitted_pairs pinned seen sides) \<or>
   (b, a) \<in> set seen \<union> set (emitted_pairs pinned seen sides)"
proof (induction sides arbitrary: seen)
  case Nil
  then show ?case by simp
next
  case (Cons x sides)
  obtain c d where x: "x = (c, d)" by (cases x)
  show ?case
    using Cons.prems Cons.IH [of seen] Cons.IH [of "seen @ [(c, d)]"]
    by (auto simp: x split: if_splits)
qed


lemma triangle_pairs_length: "length (triangle_pairs tris) = 3 * length tris"
  by (induction tris) (auto simp: triangle_pairs_def)

text \<open>
  Claim C6. For a mesh with one pinned value per vertex and triangles over its vertices, the
  edge construction of \<open>create_frag_env_cloth\<close> returns one edge for each side of a triangle
  that was not taken before in either orientation and whose ends are not both pinned, at
  most three per triangle; every edge stores the cloth indices of its two ends, the squared
  distance between their rest positions, weight 0 if the first end is pinned, 1 if the second
  is, 1/2 otherwise, and the compression weight 1/4.
\<close>

theorem cloth_edge_construction:
  assumes "length pinned = length verts"
    and "reindex_vertices pinned verts = Inr maps"
    and "\<forall>(v0, v1, v2) \<in> set tris. v0 < length verts \<and> v1 < length verts \<and> v2 < length verts"
  shows "\<exists>ps. build_edges pinned maps tris = Inr (map (cloth_edge_of pinned verts) ps) \<and>
      ps = emitted_pairs pinned [] (triangle_pairs tris) \<and>
      set ps \<subseteq> set (triangle_pairs tris) \<and>
      length ps \<le> 3 * length tris \<and>
      distinct ps \<and>
      (\<forall>(a, b) \<in> set ps. \<not> (pinned ! a \<and> pinned ! b) \<and> (a \<noteq> b \<longrightarrow> (b, a) \<notin> set ps)) \<and>
      (\<forall>(a, b) \<in> set (triangle_pairs tris).
          \<not> (pinned ! a \<and> pinned ! b) \<longrightarrow> (a, b) \<in> set ps \<or> (b, a) \<in> set ps) \<and>
      (\<forall>(a, b) \<in> set ps.
          vertex0 (cloth_edge_of pinned verts (a, b)) = cloth_index_of pinned a \<and>
          vertex1 (cloth_edge_of pinned verts (a, b)) = cloth_index_of pinned b \<and>
          length_sqr (cloth_edge_of pinned verts (a, b)) =
            (vx (verts ! a) - vx (verts ! b))\<^sup>2 + (vy (verts ! a) - vy (verts ! b))\<^sup>2
            + (vz (verts ! a) - vz (verts ! b))\<^sup>2 \<and>
          weight0 (cloth_edge_of pinned verts (a, b)) =
            (if pinned ! a then 0 else if pinned ! b then 1 else 1 / 2) \<and>
          compression_weight (cloth_edge_of pinned verts (a, b)) = 1 / 4)"
proof -
  let ?ps = "emitted_pairs pinned [] (triangle_pairs tris)"
  have maps: "maps = reindex_state_after pinned verts (length verts)"
    using assms(2) by (simp add: reindex_vertices_eq [OF assms(1)])
  show ?thesis
  proof (intro exI [of _ ?ps] conjI ballI)
    show "build_edges pinned maps tris = Inr (map (cloth_edge_of pinned verts) ?ps)"
      unfolding maps by (rule build_edges_eq [OF assms(1,3)])
    show "?ps = emitted_pairs pinned [] (triangle_pairs tris)"
      by (rule refl)
    show "set ?ps \<subseteq> set (triangle_pairs tris)"
      by (rule emitted_pairs_subset)
    show "length ?ps \<le> 3 * length tris"
      using emitted_pairs_length [of pinned "[]" "triangle_pairs tris"]
      by (simp add: triangle_pairs_length)
    show "distinct ?ps"
      by (rule emitted_pairs_distinct)
    show "case x of (a, b) \<Rightarrow> \<not> (pinned ! a \<and> pinned ! b) \<and> (a \<noteq> b \<longrightarrow> (b, a) \<notin> set ?ps)"
      if "x \<in> set ?ps" for x
    proof -
      obtain a b where x: "x = (a, b)" by (cases x)
      show ?thesis
        using that emitted_pairs_not_pinned [of a b pinned "[]" "triangle_pairs tris"]
          emitted_pairs_one_orientation [of a b pinned "[]" "triangle_pairs tris"]
        unfolding x by blast
    qed
    show "case x of (a, b) \<Rightarrow>
          \<not> (pinned ! a \<and> pinned ! b) \<longrightarrow> (a, b) \<in> set ?ps \<or> (b, a) \<in> set ?ps"
      if "x \<in> set (triangle_pairs tris)" for x
    proof -
      obtain a b where x: "x = (a, b)" by (cases x)
      show ?thesis
        using that emitted_pairs_complete [of a b "triangle_pairs tris" pinned "[]"]
        unfolding x by simp
    qed
    show "case x of (a, b) \<Rightarrow>
          vertex0 (cloth_edge_of pinned verts (a, b)) = cloth_index_of pinned a \<and>
          vertex1 (cloth_edge_of pinned verts (a, b)) = cloth_index_of pinned b \<and>
          length_sqr (cloth_edge_of pinned verts (a, b)) =
            (vx (verts ! a) - vx (verts ! b))\<^sup>2 + (vy (verts ! a) - vy (verts ! b))\<^sup>2
            + (vz (verts ! a) - vz (verts ! b))\<^sup>2 \<and>
          weight0 (cloth_edge_of pinned verts (a, b)) =
            (if pinned ! a then 0 else if pinned ! b then 1 else 1 / 2) \<and>
          compression_weight (cloth_edge_of pinned verts (a, b)) = 1 / 4"
      if "x \<in> set ?ps" for x
      by (cases x) (simp add: cloth_edge_of_def)
  qed
qed

lemma square_facts:
  "square_pinned = [False, False, True, True]"
  "length square_pinned = length square_vertices"
  "length square_vertices = 4"
  "triangle_pairs square_triangles = [(0, 1), (1, 2), (2, 0), (0, 2), (2, 3), (3, 0)]"
  by (simp_all add: square_pinned_def pinned_array_def square_vertices_def square_triangles_def
      triangle_pairs_def)

lemma square_emitted:
  "emitted_pairs square_pinned [] (triangle_pairs square_triangles) = [(0, 1), (1, 2), (2, 0), (3, 0)]"
  unfolding square_facts by simp

lemma square_indices:
  "cloth_index_of square_pinned 0 = 2" "cloth_index_of square_pinned 1 = 3"
  "cloth_index_of square_pinned 2 = 0" "cloth_index_of square_pinned 3 = 1"
proof -
  have u: "[0..<3] = [0, 1, 2::nat]" "[0..<2] = [0, 1::nat]" "[0..<1] = [0::nat]"
    by (simp_all add: upt_rec)
  have k: "num_pinned_of square_pinned = 2"
    by (simp add: num_pinned_of_def square_facts)
  show "cloth_index_of square_pinned 0 = 2" "cloth_index_of square_pinned 1 = 3"
    "cloth_index_of square_pinned 2 = 0" "cloth_index_of square_pinned 3 = 1"
    unfolding cloth_index_of_def k u by (simp_all add: square_facts)
qed

lemma square_edges:
  "cloth_edge_of square_pinned square_vertices (0, 1) =
     \<lparr>vertex0 = 2, vertex1 = 3, length_sqr = 1, weight0 = 1 / 2, compression_weight = 1 / 4\<rparr>"
  "cloth_edge_of square_pinned square_vertices (1, 2) =
     \<lparr>vertex0 = 3, vertex1 = 0, length_sqr = 1, weight0 = 1, compression_weight = 1 / 4\<rparr>"
  "cloth_edge_of square_pinned square_vertices (2, 0) =
     \<lparr>vertex0 = 0, vertex1 = 2, length_sqr = 2, weight0 = 0, compression_weight = 1 / 4\<rparr>"
  "cloth_edge_of square_pinned square_vertices (3, 0) =
     \<lparr>vertex0 = 1, vertex1 = 2, length_sqr = 1, weight0 = 0, compression_weight = 1 / 4\<rparr>"
  unfolding cloth_edge_of_def prod.case square_indices
  by (simp_all add: square_facts(1) square_vertices_def)

text \<open>The square: side (0, 2) repeats (2, 0) and side (2, 3) has both ends pinned.\<close>

theorem cloth_edge_construction_witness:
  "\<exists>maps. reindex_vertices square_pinned square_vertices = Inr maps \<and>
     build_edges square_pinned maps square_triangles =
       Inr [\<lparr>vertex0 = 2, vertex1 = 3, length_sqr = 1, weight0 = 1 / 2, compression_weight = 1 / 4\<rparr>,
            \<lparr>vertex0 = 3, vertex1 = 0, length_sqr = 1, weight0 = 1, compression_weight = 1 / 4\<rparr>,
            \<lparr>vertex0 = 0, vertex1 = 2, length_sqr = 2, weight0 = 0, compression_weight = 1 / 4\<rparr>,
            \<lparr>vertex0 = 1, vertex1 = 2, length_sqr = 1, weight0 = 0, compression_weight = 1 / 4\<rparr>]"
proof -
  let ?maps = "reindex_state_after square_pinned square_vertices (length square_vertices)"
  have r: "reindex_vertices square_pinned square_vertices = Inr ?maps"
    by (rule reindex_vertices_eq [OF square_facts(2)])
  have t: "\<forall>(v0, v1, v2) \<in> set square_triangles.
      v0 < length square_vertices \<and> v1 < length square_vertices \<and> v2 < length square_vertices"
    by (simp add: square_triangles_def square_vertices_def)
  from cloth_edge_construction [OF square_facts(2) r t]
  have "build_edges square_pinned ?maps square_triangles =
      Inr (map (cloth_edge_of square_pinned square_vertices) [(0, 1), (1, 2), (2, 0), (3, 0)])"
    unfolding square_emitted by (elim exE conjE) simp
  moreover have "map (cloth_edge_of square_pinned square_vertices) [(0, 1), (1, 2), (2, 0), (3, 0)] =
       [\<lparr>vertex0 = 2, vertex1 = 3, length_sqr = 1, weight0 = 1 / 2, compression_weight = 1 / 4\<rparr>,
        \<lparr>vertex0 = 3, vertex1 = 0, length_sqr = 1, weight0 = 1, compression_weight = 1 / 4\<rparr>,
        \<lparr>vertex0 = 0, vertex1 = 2, length_sqr = 2, weight0 = 0, compression_weight = 1 / 4\<rparr>,
        \<lparr>vertex0 = 1, vertex1 = 2, length_sqr = 1, weight0 = 0, compression_weight = 1 / 4\<rparr>]"
    by (simp only: list.map square_edges)
  ultimately show ?thesis
    using r by simp
qed

section \<open>Properties of the cloth edge buckets\<close>

lemma can_add_to_bucket_iff: "can_add_to_bucket e bucket \<longleftrightarrow> (\<forall>x \<in> set bucket. \<not> shares_vertex e x)"
  by (induction bucket) auto

lemma find_bucket_step:
  "find_bucket e (bucket # buckets) k =
     (if fits e bucket then Some k else find_bucket e buckets (Suc k))"
  by (auto simp: fits_def can_add_to_bucket_iff)

lemma find_bucket_Some:
  "find_bucket e bs k = Some r \<Longrightarrow>
     \<exists>i. r = k + i \<and> i < length bs \<and> fits e (bs ! i) \<and> (\<forall>j < i. \<not> fits e (bs ! j))"
proof (induction bs arbitrary: k)
  case Nil
  then show ?case by simp
next
  case (Cons b bs)
  show ?case
  proof (cases "fits e b")
    case True
    with Cons.prems have "r = k"
      by (simp add: find_bucket_step del: find_bucket.simps)
    with True show ?thesis
      by (intro exI [of _ 0]) simp
  next
    case False
    with Cons.prems have "find_bucket e bs (Suc k) = Some r"
      by (simp add: find_bucket_step del: find_bucket.simps)
    from Cons.IH [OF this] obtain i where i: "r = Suc k + i" "i < length bs" "fits e (bs ! i)"
      "\<forall>j < i. \<not> fits e (bs ! j)"
      by blast
    have "\<not> fits e ((b # bs) ! j)" if "j < Suc i" for j
      using that False i(4) by (cases j) simp_all
    with i show ?thesis
      by (intro exI [of _ "Suc i"]) simp
  qed
qed

lemma find_bucket_None:
  "find_bucket e bs k = None \<Longrightarrow> i < length bs \<Longrightarrow> \<not> fits e (bs ! i)"
proof (induction bs arbitrary: k i)
  case Nil
  then show ?case by simp
next
  case (Cons b bs)
  from Cons.prems(1) have nf: "\<not> fits e b" and rest: "find_bucket e bs (Suc k) = None"
    by (simp_all add: find_bucket_step del: find_bucket.simps split: if_splits)
  show ?case
  proof (cases i)
    case 0
    with nf show ?thesis by simp
  next
    case (Suc i')
    with Cons.prems(2) Cons.IH [OF rest, of i'] show ?thesis by simp
  qed
qed

lemma find_bucket_first_fit:
  assumes "i < length bs" "fits e (bs ! i)"
  shows "\<exists>r. find_bucket e bs 0 = Some r \<and> r \<le> i \<and> r < length bs \<and> fits e (bs ! r) \<and>
           (\<forall>j < r. \<not> fits e (bs ! j))"
proof (cases "find_bucket e bs 0")
  case None
  from find_bucket_None [OF None assms(1)] assms(2) show ?thesis
    by simp
next
  case (Some r)
  from find_bucket_Some [OF Some] have r: "r < length bs" "fits e (bs ! r)" "\<forall>j < r. \<not> fits e (bs ! j)"
    by auto
  have "r \<le> i"
  proof (rule ccontr)
    assume "\<not> r \<le> i"
    then have "i < r" by simp
    with r(3) assms(2) show False by simp
  qed
  with Some r show ?thesis
    by simp
qed

lemma mset_concat_update:
  "i < length B \<Longrightarrow> mset (concat (B[i := B ! i @ [e]])) = add_mset e (mset (concat B))"
proof (induction B arbitrary: i)
  case Nil
  then show ?case by simp
next
  case (Cons b B)
  then show ?case
    by (cases i) simp_all
qed

lemma shares_vertex_sym: "shares_vertex a b \<longleftrightarrow> shares_vertex b a"
  by (auto simp: shares_vertex_def)


lemma bucket_invD:
  assumes "bucket_inv N placed (B, l)"
  shows "length B = N" "- 1 \<le> l" "l + 1 \<le> int (length placed)"
    and "\<And>i. i < N \<Longrightarrow> B ! i \<noteq> [] \<longleftrightarrow> int i \<le> l"
    and "\<And>b. b \<in> set B \<Longrightarrow> length b \<le> MAX_EDGES_IN_BUCKET"
    and "\<And>b i j. b \<in> set B \<Longrightarrow> i < j \<Longrightarrow> j < length b \<Longrightarrow> \<not> shares_vertex (b ! j) (b ! i)"
    and "mset (concat B) = mset placed"
  using assms unfolding bucket_inv_def by auto

lemma bucket_invI:
  assumes "length B = N" "- 1 \<le> l" "l + 1 \<le> int (length placed)"
    and "\<And>i. i < N \<Longrightarrow> B ! i \<noteq> [] \<longleftrightarrow> int i \<le> l"
    and "\<And>b. b \<in> set B \<Longrightarrow> length b \<le> MAX_EDGES_IN_BUCKET"
    and "\<And>b i j. b \<in> set B \<Longrightarrow> i < j \<Longrightarrow> j < length b \<Longrightarrow> \<not> shares_vertex (b ! j) (b ! i)"
    and "mset (concat B) = mset placed"
  shows "bucket_inv N placed (B, l)"
  unfolding bucket_inv_def using assms by auto

lemma bucket_inv_init: "bucket_inv N [] (replicate N [], - 1)"
  by (rule bucket_invI) auto

lemma place_edge_inv:
  assumes inv: "bucket_inv N placed (B, l)" and room: "length placed < N"
  shows "\<exists>r. r < N \<and> fits e (B ! r) \<and> (\<forall>j < r. \<not> fits e (B ! j)) \<and>
           place_edge e (B, l) = (B[r := B ! r @ [e]], if int r > l then int r else l) \<and>
           bucket_inv N (placed @ [e]) (place_edge e (B, l))"
proof -
  note I = bucket_invD [OF inv]
  define f where "f = nat (l + 1)"
  have f: "f < N" "int f = l + 1"
    using I(2,3) room by (simp_all add: f_def)
  have "B ! f = []"
    using I(4) [OF f(1)] f(2) by simp
  then have "fits e (B ! f)"
    by (simp add: fits_def MAX_EDGES_IN_BUCKET_def)
  with find_bucket_first_fit [of f B e] f(1) I(1)
  obtain r where r: "find_bucket e B 0 = Some r" "r \<le> f" "r < N" "fits e (B ! r)"
    "\<forall>j < r. \<not> fits e (B ! j)"
    by auto
  define B' where "B' = B[r := B ! r @ [e]]"
  define l' where "l' = (if int r > l then int r else l)"
  have p: "place_edge e (B, l) = (B', l')"
    by (simp add: place_edge_def r(1) B'_def l'_def)
  have "bucket_inv N (placed @ [e]) (B', l')"
  proof (rule bucket_invI)
    show "length B' = N"
      by (simp add: B'_def I(1))
    show "- 1 \<le> l'"
      using I(2) by (simp add: l'_def)
    show "l' + 1 \<le> int (length (placed @ [e]))"
      using I(3) r(2) f(2) by (simp add: l'_def)
    show "B' ! i \<noteq> [] \<longleftrightarrow> int i \<le> l'" if "i < N" for i
    proof (cases "i = r")
      case True
      then show ?thesis
        using that by (simp add: B'_def I(1) l'_def)
    next
      case False
      then have "B' ! i = B ! i"
        by (simp add: B'_def)
      moreover have "int i \<le> l' \<longleftrightarrow> int i \<le> l"
        using False r(2) f(2) by (auto simp: l'_def)
      ultimately show ?thesis
        using I(4) [OF that] by simp
    qed
    have mem: "b \<in> set B \<or> b = B ! r @ [e]" if "b \<in> set B'" for b
      using that set_update_subset_insert [of B r "B ! r @ [e]"] by (auto simp: B'_def)
    have Br: "B ! r \<in> set B"
      using r(3) by (simp add: I(1))
    show "length b \<le> MAX_EDGES_IN_BUCKET" if "b \<in> set B'" for b
      using mem [OF that] I(5) r(4) by (auto simp: fits_def)
    show "\<not> shares_vertex (b ! j) (b ! i)" if "b \<in> set B'" "i < j" "j < length b" for b i j
    proof (cases "b \<in> set B")
      case True
      then show ?thesis
        using I(6) that by blast
    next
      case False
      with mem [OF that(1)] have b: "b = B ! r @ [e]"
        by simp
      show ?thesis
      proof (cases "j < length (B ! r)")
        case True
        then show ?thesis
          using I(6) [OF Br that(2) True] that(2) by (simp add: b nth_append)
      next
        case False
        with that(3) have j: "j = length (B ! r)"
          by (simp add: b)
        have "B ! r ! i \<in> set (B ! r)"
          using that(2) j by simp
        with r(4) have "\<not> shares_vertex e (B ! r ! i)"
          by (simp add: fits_def)
        then show ?thesis
          using that(2) by (simp add: b j nth_append)
      qed
    qed
    show "mset (concat B') = mset (placed @ [e])"
      using r(3) by (simp add: B'_def mset_concat_update I(1) I(7))
  qed
  then show ?thesis
    using r(3,4,5) unfolding p by (intro exI [of _ r]) (simp add: B'_def l'_def)
qed

lemma fold_place_edge_inv:
  assumes "k \<le> length es" "length es \<le> N"
  shows "bucket_inv N (take k es) (fold place_edge (take k es) (replicate N [], - 1))"
  using assms(1)
proof (induction k)
  case 0
  then show ?case
    by (simp add: bucket_inv_init)
next
  case (Suc k)
  then have k: "k < length es"
    by simp
  obtain B l where st: "fold place_edge (take k es) (replicate N [], - 1) = (B, l)"
    by (cases "fold place_edge (take k es) (replicate N [], - 1)")
  have inv: "bucket_inv N (take k es) (B, l)"
    using Suc.IH k by (simp add: st)
  have room: "length (take k es) < N"
    using k assms(2) by simp
  have t: "take (Suc k) es = take k es @ [es ! k]"
    by (rule take_Suc_conv_app_nth [OF k])
  from place_edge_inv [OF inv room, of "es ! k"]
  have "bucket_inv N (take k es @ [es ! k]) (place_edge (es ! k) (B, l))"
    by blast
  then show ?case
    by (simp add: t st)
qed


lemma pad_bucket_eq:
  assumes "length b \<le> MAX_EDGES_IN_BUCKET"
  shows "pad_bucket b = b @ replicate (MAX_EDGES_IN_BUCKET - length b) dummy_edge"
proof (rule nth_equalityI)
  show "length (pad_bucket b) = length (b @ replicate (MAX_EDGES_IN_BUCKET - length b) dummy_edge)"
    using assms by (simp add: pad_bucket_def)
  show "pad_bucket b ! i = (b @ replicate (MAX_EDGES_IN_BUCKET - length b) dummy_edge) ! i"
    if "i < length (pad_bucket b)" for i
    using that by (simp add: pad_bucket_def nth_append)
qed

lemma pad_bucket_length: "length (pad_bucket b) = MAX_EDGES_IN_BUCKET"
  by (simp add: pad_bucket_def)

lemma emit_buckets_eq:
  "emit_buckets B k l = concat (map pad_bucket (take (nat (l + 1 - int k)) B))"
proof (induction B arbitrary: k)
  case Nil
  then show ?case by simp
next
  case (Cons b B)
  show ?case
  proof (cases "int k > l")
    case True
    then show ?thesis by simp
  next
    case False
    then have "nat (l + 1 - int k) = Suc (nat (l + 1 - int (k + 1)))"
      by simp
    then show ?thesis
      using False Cons.IH [of "k + 1"] by (simp del: of_nat_Suc of_nat_add)
  qed
qed

lemma concat_chunk:
  assumes "\<forall>xs \<in> set xss. length xs = n" "c < length xss"
  shows "take n (drop (n * c) (concat xss)) = xss ! c"
  using assms
proof (induction xss arbitrary: c)
  case Nil
  then show ?case by simp
next
  case (Cons xs xss)
  show ?case
  proof (cases c)
    case 0
    then show ?thesis
      using Cons.prems by simp
  next
    case (Suc c')
    have "drop (n * Suc c') (xs @ concat xss) = drop (n * c') (concat xss)"
      using Cons.prems(1) by simp
    then show ?thesis
      using Cons.IH [of c'] Cons.prems by (simp add: Suc)
  qed
qed

lemma concat_all_length:
  assumes "\<forall>xs \<in> set xss. length xs = n"
  shows "length (concat xss) = n * length xss"
  using assms by (induction xss) simp_all

lemma concat_empties: "\<forall>xs \<in> set xss. xs = [] \<Longrightarrow> concat xss = []"
  by (induction xss) simp_all


lemma buckets_after_step:
  assumes "k < length es"
  shows "\<exists>r < length (buckets_after es k).
           fits (es ! k) (buckets_after es k ! r) \<and>
           (\<forall>j < r. \<not> fits (es ! k) (buckets_after es k ! j)) \<and>
           buckets_after es (Suc k) = (buckets_after es k)[r := buckets_after es k ! r @ [es ! k]]"
proof -
  let ?N = "length es * 4"
  obtain B l where st: "fold place_edge (take k es) (replicate ?N [], - 1) = (B, l)"
    by (cases "fold place_edge (take k es) (replicate ?N [], - 1)")
  have inv: "bucket_inv ?N (take k es) (B, l)"
    using fold_place_edge_inv [of k es ?N] assms by (simp add: st)
  have room: "length (take k es) < ?N"
    using assms by simp
  have t: "take (Suc k) es = take k es @ [es ! k]"
    by (rule take_Suc_conv_app_nth [OF assms])
  from place_edge_inv [OF inv room, of "es ! k"]
  obtain r where r: "r < ?N" "fits (es ! k) (B ! r)" "\<forall>j < r. \<not> fits (es ! k) (B ! j)"
    "place_edge (es ! k) (B, l) = (B[r := B ! r @ [es ! k]], if int r > l then int r else l)"
    by blast
  have b: "buckets_after es k = B"
    by (simp add: buckets_after_def st)
  have b': "buckets_after es (Suc k) = B[r := B ! r @ [es ! k]]"
    by (simp add: buckets_after_def t st r(4))
  have "length B = ?N"
    by (rule bucket_invD(1) [OF inv])
  with r(1,2,3) show ?thesis
    unfolding b b' by (intro exI [of _ r]) simp
qed

text \<open>
  Claim C5, as the code has it. The edge list produced by the bucketing consists of
  consecutive chunks of exactly 8 entries, one per used bucket; each chunk is the bucket's
  own edges followed by dummy edges up to 8; no two edges of a bucket share a vertex; the
  buckets hold exactly the edges given; each edge went to the first bucket, in scan order,
  that had fewer than 8 edges and no edge sharing a vertex with it; and the dummy edge has
  both ends at vertex 0, \<open>length_sqr\<close> 1e8 and both weights 0.
\<close>

theorem cloth_edge_buckets:
  "\<exists>B m. fill_buckets es = (B, int m - 1) \<and> m \<le> length B \<and>
     bucket_edges es = concat (map pad_bucket (take m B)) \<and>
     length (bucket_edges es) = MAX_EDGES_IN_BUCKET * m \<and>
     (\<forall>c < m.
        take MAX_EDGES_IN_BUCKET (drop (MAX_EDGES_IN_BUCKET * c) (bucket_edges es)) =
          B ! c @ replicate (MAX_EDGES_IN_BUCKET - length (B ! c)) dummy_edge \<and>
        B ! c \<noteq> [] \<and> length (B ! c) \<le> MAX_EDGES_IN_BUCKET \<and>
        (\<forall>i j. i < j \<and> j < length (B ! c) \<longrightarrow> \<not> shares_vertex (B ! c ! i) (B ! c ! j))) \<and>
     mset (concat (take m B)) = mset es \<and>
     (\<forall>k < length es. \<exists>r < length (buckets_after es k).
        fits (es ! k) (buckets_after es k ! r) \<and>
        (\<forall>j < r. \<not> fits (es ! k) (buckets_after es k ! j)) \<and>
        buckets_after es (Suc k) = (buckets_after es k)[r := buckets_after es k ! r @ [es ! k]]) \<and>
     MAX_EDGES_IN_BUCKET = 8 \<and>
     dummy_edge = \<lparr>vertex0 = 0, vertex1 = 0, length_sqr = 100000000, weight0 = 0, compression_weight = 0\<rparr>"
proof -
  let ?N = "length es * 4"
  obtain B l where st: "fill_buckets es = (B, l)"
    by (cases "fill_buckets es")
  have inv: "bucket_inv ?N es (B, l)"
    using fold_place_edge_inv [of "length es" es ?N] st by (simp add: fill_buckets_def)
  note I = bucket_invD [OF inv]
  define m where "m = nat (l + 1)"
  have l: "l = int m - 1"
    using I(2) by (simp add: m_def)
  have mN: "m \<le> length B"
    using I(1,3) by (simp add: m_def)
  have out: "bucket_edges es = concat (map pad_bucket (take m B))"
    by (simp add: bucket_edges_def st emit_buckets_eq m_def)
  have all8: "\<forall>xs \<in> set (map pad_bucket (take m B)). length xs = MAX_EDGES_IN_BUCKET"
    by (simp add: pad_bucket_length)
  have len: "length (bucket_edges es) = MAX_EDGES_IN_BUCKET * m"
    unfolding out using concat_all_length [OF all8] mN by simp
  have mem: "B ! c \<in> set B" if "c < m" for c
    using that mN by simp
  have chunk: "take MAX_EDGES_IN_BUCKET (drop (MAX_EDGES_IN_BUCKET * c) (bucket_edges es)) =
          B ! c @ replicate (MAX_EDGES_IN_BUCKET - length (B ! c)) dummy_edge" if "c < m" for c
  proof -
    have "take MAX_EDGES_IN_BUCKET (drop (MAX_EDGES_IN_BUCKET * c) (bucket_edges es)) =
        map pad_bucket (take m B) ! c"
      unfolding out using that mN by (intro concat_chunk [OF all8]) simp
    also have "\<dots> = pad_bucket (B ! c)"
      using that mN by simp
    also have "\<dots> = B ! c @ replicate (MAX_EDGES_IN_BUCKET - length (B ! c)) dummy_edge"
      by (rule pad_bucket_eq [OF I(5) [OF mem [OF that]]])
    finally show ?thesis .
  qed
  have nonempty: "B ! c \<noteq> []" if "c < m" for c
  proof -
    have "c < ?N"
      using that mN I(1) by simp
    from I(4) [OF this] that show ?thesis
      by (simp add: l)
  qed
  have noshare: "\<not> shares_vertex (B ! c ! i) (B ! c ! j)" if "c < m" "i < j" "j < length (B ! c)" for c i j
    using I(6) [OF mem [OF that(1)] that(2,3)] by (simp add: shares_vertex_sym)
  have all: "mset (concat (take m B)) = mset es"
  proof -
    have "xs = []" if "xs \<in> set (drop m B)" for xs
    proof -
      from that obtain i where i: "i < length (drop m B)" "xs = drop m B ! i"
        by (auto simp: in_set_conv_nth)
      then have "m + i < ?N" "xs = B ! (m + i)"
        using I(1) by simp_all
      with I(4) [of "m + i"] show ?thesis
        by (simp add: l)
    qed
    then have e: "concat (drop m B) = []"
      by (intro concat_empties) simp
    have "concat B = concat (take m B @ drop m B)"
      by simp
    also have "\<dots> = concat (take m B) @ concat (drop m B)"
      by (rule concat_append)
    finally have "concat B = concat (take m B)"
      by (simp only: e append_Nil2)
    then show ?thesis
      using I(7) by (simp only:)
  qed
  show ?thesis
  proof (rule exI [of _ B], rule exI [of _ m], intro conjI allI impI)
    show "fill_buckets es = (B, int m - 1)"
      using st l by simp
    show "m \<le> length B"
      by (rule mN)
    show "bucket_edges es = concat (map pad_bucket (take m B))"
      by (rule out)
    show "length (bucket_edges es) = MAX_EDGES_IN_BUCKET * m"
      by (rule len)
    show "take MAX_EDGES_IN_BUCKET (drop (MAX_EDGES_IN_BUCKET * c) (bucket_edges es)) =
          B ! c @ replicate (MAX_EDGES_IN_BUCKET - length (B ! c)) dummy_edge" if "c < m" for c
      by (rule chunk [OF that])
    show "B ! c \<noteq> []" if "c < m" for c
      by (rule nonempty [OF that])
    show "length (B ! c) \<le> MAX_EDGES_IN_BUCKET" if "c < m" for c
      by (rule I(5) [OF mem [OF that]])
    show "\<not> shares_vertex (B ! c ! i) (B ! c ! j)" if "c < m" "i < j \<and> j < length (B ! c)" for c i j
      using noshare [OF that(1)] that(2) by blast
    show "mset (concat (take m B)) = mset es"
      by (rule all)
    show "\<exists>r < length (buckets_after es k).
        fits (es ! k) (buckets_after es k ! r) \<and>
        (\<forall>j < r. \<not> fits (es ! k) (buckets_after es k ! j)) \<and>
        buckets_after es (Suc k) = (buckets_after es k)[r := buckets_after es k ! r @ [es ! k]]"
      if "k < length es" for k
      by (rule buckets_after_step [OF that])
    show "MAX_EDGES_IN_BUCKET = 8"
      by (rule MAX_EDGES_IN_BUCKET_def)
    show "dummy_edge = \<lparr>vertex0 = 0, vertex1 = 0, length_sqr = 100000000, weight0 = 0, compression_weight = 0\<rparr>"
      by (rule dummy_edge_def)
  qed
qed


lemma replicate_12: "replicate 12 x = x # x # replicate 10 x"
proof -
  have "(12::nat) = Suc (Suc 10)"
    by simp
  then show ?thesis
    by (simp only: replicate_Suc)
qed

lemma replicate_4: "replicate 4 x = [x, x, x, x]"
  by (simp add: numeral_eq_Suc)

lemma fan_example_fill:
  "fill_buckets [fan_edge 1, fan_edge 2, far_edge] =
     ([fan_edge 1, far_edge] # [fan_edge 2] # replicate 10 [], 1)"
  by (simp add: fill_buckets_def replicate_12 place_edge_def MAX_EDGES_IN_BUCKET_def
      shares_vertex_def fan_edge_def far_edge_def)

lemma pad_bucket_example:
  "pad_bucket [a, b] = [a, b] @ replicate 6 dummy_edge"
  "pad_bucket [a] = [a] @ replicate 7 dummy_edge"
  by (simp_all add: pad_bucket_eq MAX_EDGES_IN_BUCKET_def)

text \<open>Two edges that meet in vertex 5 go to different buckets; a third edge apart joins the first.\<close>

theorem cloth_edge_buckets_witness:
  "bucket_edges [fan_edge 1, fan_edge 2, far_edge] =
     [fan_edge 1, far_edge] @ replicate 6 dummy_edge @ [fan_edge 2] @ replicate 7 dummy_edge"
proof -
  from cloth_edge_buckets [of "[fan_edge 1, fan_edge 2, far_edge]"]
  obtain B m where f: "fill_buckets [fan_edge 1, fan_edge 2, far_edge] = (B, int m - 1)"
    and o: "bucket_edges [fan_edge 1, fan_edge 2, far_edge] = concat (map pad_bucket (take m B))"
    by (elim exE conjE)
  from f have B: "B = [fan_edge 1, far_edge] # [fan_edge 2] # replicate 10 []" and m: "int m - 1 = 1"
    unfolding fan_example_fill by simp_all
  from m have "m = Suc (Suc 0)"
    by simp
  then show ?thesis
    unfolding o B
    by (simp only: take_Suc_Cons take_0 list.map concat.simps pad_bucket_example append_Nil2
        append_assoc)
qed

text \<open>
  The padding of a single edge: the second entry is a dummy edge from vertex 0 to vertex 0
  whose stored squared length is 1e8, not 0.
\<close>

theorem cloth_dummy_edge_length:
  "bucket_edges [far_edge] ! 1 = dummy_edge \<and>
   vertex0 (bucket_edges [far_edge] ! 1) = 0 \<and>
   vertex1 (bucket_edges [far_edge] ! 1) = 0 \<and>
   length_sqr (bucket_edges [far_edge] ! 1) = 100000000 \<and>
   length_sqr (bucket_edges [far_edge] ! 1) \<noteq> 0"
proof -
  have f: "fill_buckets [far_edge] = ([[far_edge], [], [], []], 0)"
    by (simp add: fill_buckets_def replicate_4 place_edge_def MAX_EDGES_IN_BUCKET_def)
  have "bucket_edges [far_edge] = [far_edge] @ replicate 7 dummy_edge"
    by (simp add: bucket_edges_def f pad_bucket_example)
  then show ?thesis
    by (simp add: dummy_edge_def)
qed

section \<open>Properties of the vertex limit\<close>

lemma all_filled_map_Some: "all_filled (map (\<lambda>j. Some (f j)) xs) = Inr (map f xs)"
  by (induction xs) simp_all

lemma log_has_no_limit_error:
  assumes "create_frag_env_cloth M frag_name objs = Inr (msgs, r)"
    and "objs \<noteq> []" "length (vertices (hd objs)) \<le> M"
  shows "ClothTooManyVerticesError a b \<notin> set msgs"
proof -
  obtain obj rest where objs: "objs = obj # rest"
    using assms(2) by (cases objs) simp_all
  have n: "\<not> length (vertices obj) > M"
    using assms(3) by (simp add: objs)
  show ?thesis
    using assms(1) n unfolding create_frag_env_cloth_def objs
    by (auto simp: Let_def split: sum.splits option.splits if_splits)
qed


lemma create_frag_env_cloth_over_limit:
  assumes "length (vertices cloth_obj) > M"
  shows "create_frag_env_cloth M frag_name (cloth_obj # others) =
     Inr ((if others \<noteq> [] then [MultipleClothWarning frag_name (map obj_name others)] else [])
            @ [ClothTooManyVerticesError M (length (vertices cloth_obj))], None)"
  using assms by (simp add: create_frag_env_cloth_def Let_def)

lemma create_frag_env_cloth_within_limit:
  assumes "length (vertices cloth_obj) \<le> M"
    and n: "length (pinned_values cloth_obj) = length (vertices cloth_obj)"
    and ne: "vertices cloth_obj \<noteq> []"
    and tris: "\<forall>(v0, v1, v2) \<in> set (loop_triangles cloth_obj).
        v0 < length (vertices cloth_obj) \<and> v1 < length (vertices cloth_obj) \<and>
        v2 < length (vertices cloth_obj)"
    and bone: "attached_bone cloth_obj = Some bone"
  shows "\<exists>env. create_frag_env_cloth M frag_name (cloth_obj # others) =
     Inr ((if others \<noteq> [] then [MultipleClothWarning frag_name (map obj_name others)] else []),
          Some env) \<and>
     vertex_count_high env = length (vertices cloth_obj) \<and>
     pinned_vertices_count env = num_pinned_of (pinned_array (pinned_values cloth_obj)) \<and>
     length (vertex_positions env) = length (vertices cloth_obj)"
proof -
  let ?pinned = "pinned_array (pinned_values cloth_obj)"
  let ?verts = "vertices cloth_obj"
  let ?maps = "reindex_state_after ?pinned ?verts (length ?verts)"
  let ?order = "cloth_order ?pinned (length ?verts)"
  have lp: "length ?pinned = length ?verts"
    by (simp add: pinned_array_def n)
  have r: "reindex_vertices ?pinned ?verts = Inr ?maps"
    by (rule reindex_vertices_eq [OF lp])
  have e: "build_edges ?pinned ?maps (loop_triangles cloth_obj) =
      Inr (map (cloth_edge_of ?pinned ?verts) (emitted_pairs ?pinned [] (triangle_pairs (loop_triangles cloth_obj))))"
    by (rule build_edges_eq [OF lp tris])
  have f: "all_filled (cloth_vertices ?maps) = Inr (map ((!) ?verts) ?order)"
    unfolding reindex_state_final(3) [OF lp] by (rule all_filled_map_Some)
  have "length (map ((!) ?verts) ?order) = length ?verts"
    by (simp add: cloth_order_perm(4))
  with ne obtain p ps where p: "map ((!) ?verts) ?order = p # ps"
    by (cases "map ((!) ?verts) ?order") auto
  have lo: "np_min (map ((!) ?verts) ?order) = Inr (fold vmin ps p)"
    and hi: "np_max (map ((!) ?verts) ?order) = Inr (fold vmax ps p)"
    unfolding p by (simp_all add: np_min_def np_max_def)
  have len: "length (p # ps) = length ?verts"
    unfolding p [symmetric] by (simp add: cloth_order_perm(4))
  show ?thesis
    using assms(1)
    by (simp add: create_frag_env_cloth_def Let_def r e f lo hi bone cloth_order_perm(4))
qed


text \<open>
  Claim C8. When the cloth mesh has more vertices than \<open>CLOTH_MAX_VERTICES\<close>,
  \<open>create_frag_env_cloth\<close> raises nothing: it logs the error and returns \<open>None\<close>, and
  the fragment under construction is returned as it was, without a cloth. When the vertex
  count is at or below the maximum, no such error is logged, and a mesh with one pinned value
  per vertex, at least one vertex, triangles over its vertices and a bone gives a cloth, which
  the fragment receives.
\<close>

theorem cloth_vertex_limit:
  "(length (vertices cloth_obj) > M \<longrightarrow>
      (\<exists>msgs. create_frag_env_cloth M frag_name (cloth_obj # others) =
                 Inr (msgs @ [ClothTooManyVerticesError M (length (vertices cloth_obj))], None) \<and>
              create_fragment_xml_cloth M dummy_physics frag_name (cloth_obj # others) frag_xml =
                 Inr (msgs @ [ClothTooManyVerticesError M (length (vertices cloth_obj))], frag_xml))) \<and>
   (length (vertices cloth_obj) \<le> M \<longrightarrow>
      (\<forall>msgs r a b. create_frag_env_cloth M frag_name (cloth_obj # others) = Inr (msgs, r) \<longrightarrow>
          ClothTooManyVerticesError a b \<notin> set msgs) \<and>
      (length (pinned_values cloth_obj) = length (vertices cloth_obj) \<and>
       vertices cloth_obj \<noteq> [] \<and>
       (\<forall>(v0, v1, v2) \<in> set (loop_triangles cloth_obj).
          v0 < length (vertices cloth_obj) \<and> v1 < length (vertices cloth_obj) \<and>
          v2 < length (vertices cloth_obj)) \<and>
       attached_bone cloth_obj \<noteq> None \<longrightarrow>
         (\<exists>msgs env frag_xml'.
            create_frag_env_cloth M frag_name (cloth_obj # others) = Inr (msgs, Some env) \<and>
            vertex_count_high env = length (vertices cloth_obj) \<and>
            create_fragment_xml_cloth M dummy_physics frag_name (cloth_obj # others) frag_xml =
              Inr (msgs, frag_xml') \<and>
            cloths frag_xml' = [env])))"
proof (intro conjI impI allI)
  assume over: "length (vertices cloth_obj) > M"
  let ?msgs = "if others \<noteq> [] then [MultipleClothWarning frag_name (map obj_name others)] else []"
  have 1: "create_frag_env_cloth M frag_name (cloth_obj # others) =
        Inr (?msgs @ [ClothTooManyVerticesError M (length (vertices cloth_obj))], None)"
    by (rule create_frag_env_cloth_over_limit [OF over])
  have 2: "create_fragment_xml_cloth M dummy_physics frag_name (cloth_obj # others) frag_xml =
        Inr (?msgs @ [ClothTooManyVerticesError M (length (vertices cloth_obj))], frag_xml)"
    unfolding create_fragment_xml_cloth_def 1 by simp
  show "\<exists>msgs. create_frag_env_cloth M frag_name (cloth_obj # others) =
                 Inr (msgs @ [ClothTooManyVerticesError M (length (vertices cloth_obj))], None) \<and>
              create_fragment_xml_cloth M dummy_physics frag_name (cloth_obj # others) frag_xml =
                 Inr (msgs @ [ClothTooManyVerticesError M (length (vertices cloth_obj))], frag_xml)"
    using 1 2 by (intro exI [of _ ?msgs] conjI)
next
  fix msgs r a b
  assume "length (vertices cloth_obj) \<le> M"
    and "create_frag_env_cloth M frag_name (cloth_obj # others) = Inr (msgs, r)"
  then show "ClothTooManyVerticesError a b \<notin> set msgs"
    using log_has_no_limit_error [of M frag_name "cloth_obj # others" msgs r a b] by simp
next
  assume within: "length (vertices cloth_obj) \<le> M"
    and wf: "length (pinned_values cloth_obj) = length (vertices cloth_obj) \<and>
       vertices cloth_obj \<noteq> [] \<and>
       (\<forall>(v0, v1, v2) \<in> set (loop_triangles cloth_obj).
          v0 < length (vertices cloth_obj) \<and> v1 < length (vertices cloth_obj) \<and>
          v2 < length (vertices cloth_obj)) \<and>
       attached_bone cloth_obj \<noteq> None"
  let ?msgs = "if others \<noteq> [] then [MultipleClothWarning frag_name (map obj_name others)] else []"
  from wf have "attached_bone cloth_obj \<noteq> None"
    by (elim conjE)
  then obtain bone where bone: "attached_bone cloth_obj = Some bone"
    by (cases "attached_bone cloth_obj") simp_all
  from wf have n: "length (pinned_values cloth_obj) = length (vertices cloth_obj)"
    by (rule conjunct1)
  from wf have ne: "vertices cloth_obj \<noteq> []"
    by (elim conjE)
  from wf have tris: "\<forall>(v0, v1, v2) \<in> set (loop_triangles cloth_obj).
          v0 < length (vertices cloth_obj) \<and> v1 < length (vertices cloth_obj) \<and>
          v2 < length (vertices cloth_obj)"
    by (elim conjE)
  from create_frag_env_cloth_within_limit [OF within n ne tris bone, of frag_name others]
  obtain env where 1: "create_frag_env_cloth M frag_name (cloth_obj # others) = Inr (?msgs, Some env)"
    and 2: "vertex_count_high env = length (vertices cloth_obj)"
    by (elim exE conjE)
  define frag1 where "frag1 = frag_xml\<lparr>cloths := [env]\<rparr>"
  define frag2 where "frag2 = (if drawable_is_empty frag1 then frag1\<lparr>drawable := None\<rparr> else frag1)"
  define frag3 where "frag3 = (if physics frag2 = None then frag2\<lparr>physics := Some dummy_physics\<rparr> else frag2)"
  have 3: "create_fragment_xml_cloth M dummy_physics frag_name (cloth_obj # others) frag_xml =
      Inr (?msgs, frag3)"
    unfolding create_fragment_xml_cloth_def 1 by (simp add: Let_def frag1_def frag2_def frag3_def)
  have 4: "cloths frag3 = [env]"
    by (simp add: frag1_def frag2_def frag3_def)
  show "\<exists>msgs env frag_xml'.
            create_frag_env_cloth M frag_name (cloth_obj # others) = Inr (msgs, Some env) \<and>
            vertex_count_high env = length (vertices cloth_obj) \<and>
            create_fragment_xml_cloth M dummy_physics frag_name (cloth_obj # others) frag_xml =
              Inr (msgs, frag_xml') \<and>
            cloths frag_xml' = [env]"
    using 1 2 3 4 by (intro exI [of _ ?msgs] exI [of _ env] exI [of _ frag3] conjI)
qed

lemma square_obj_facts:
  "length (vertices square_obj) = 4"
  "length (pinned_values square_obj) = length (vertices square_obj)"
  "vertices square_obj \<noteq> []"
  "\<forall>(v0, v1, v2) \<in> set (loop_triangles square_obj).
      v0 < length (vertices square_obj) \<and> v1 < length (vertices square_obj) \<and>
      v2 < length (vertices square_obj)"
  "attached_bone square_obj \<noteq> None"
  by (simp_all add: square_obj_def square_vertices_def square_triangles_def)

text \<open>The square has four vertices: over a maximum of 3, within a maximum of 4.\<close>

theorem cloth_vertex_limit_witness:
  "create_frag_env_cloth 3 ''frag'' [square_obj] = Inr ([ClothTooManyVerticesError 3 4], None) \<and>
   create_fragment_xml_cloth 3 () ''frag'' [square_obj] square_frag =
     Inr ([ClothTooManyVerticesError 3 4], square_frag) \<and>
   (\<exists>env frag_xml'. create_frag_env_cloth 4 ''frag'' [square_obj] = Inr ([], Some env) \<and>
      vertex_count_high env = 4 \<and>
      create_fragment_xml_cloth 4 () ''frag'' [square_obj] square_frag = Inr ([], frag_xml') \<and>
      cloths frag_xml' = [env])"
proof -
  have over: "length (vertices square_obj) > 3" and within: "length (vertices square_obj) \<le> 4"
    by (simp_all add: square_obj_facts(1))
  note t3 = cloth_vertex_limit [where cloth_obj = square_obj and M = 3 and frag_name = "''frag''"
      and others = "[]" and dummy_physics = "()" and frag_xml = square_frag]
  note t4 = cloth_vertex_limit [where cloth_obj = square_obj and M = 4 and frag_name = "''frag''"
      and others = "[]" and dummy_physics = "()" and frag_xml = square_frag]
  from t3 [THEN conjunct1, THEN mp, OF over]
  obtain msgs where
    a: "create_frag_env_cloth 3 ''frag'' [square_obj] =
          Inr (msgs @ [ClothTooManyVerticesError 3 (length (vertices square_obj))], None)"
    and b: "create_fragment_xml_cloth 3 () ''frag'' [square_obj] square_frag =
          Inr (msgs @ [ClothTooManyVerticesError 3 (length (vertices square_obj))], square_frag)"
    by (elim exE conjE)
  have "create_frag_env_cloth 3 ''frag'' [square_obj] =
      Inr ([ClothTooManyVerticesError 3 (length (vertices square_obj))], None)"
    using create_frag_env_cloth_over_limit [OF over, of "''frag''" "[]"] by simp
  with a have msgs: "msgs = []"
    by simp
  have wf: "length (pinned_values square_obj) = length (vertices square_obj) \<and>
       vertices square_obj \<noteq> [] \<and>
       (\<forall>(v0, v1, v2) \<in> set (loop_triangles square_obj).
          v0 < length (vertices square_obj) \<and> v1 < length (vertices square_obj) \<and>
          v2 < length (vertices square_obj)) \<and>
       attached_bone square_obj \<noteq> None"
    by (intro conjI square_obj_facts)
  from t4 [THEN conjunct2, THEN mp, OF within, THEN conjunct2, THEN mp, OF wf]
  obtain msgs' env frag_xml' where
    c: "create_frag_env_cloth 4 ''frag'' [square_obj] = Inr (msgs', Some env)"
    and d: "vertex_count_high env = length (vertices square_obj)"
    and e: "create_fragment_xml_cloth 4 () ''frag'' [square_obj] square_frag = Inr (msgs', frag_xml')"
    and f: "cloths frag_xml' = [env]"
    by (elim exE conjE)
  have bone: "attached_bone square_obj = Some 3"
    by (simp add: square_obj_def)
  from create_frag_env_cloth_within_limit [OF within square_obj_facts(2,3,4) bone, of "''frag''" "[]"]
  obtain env0 where "create_frag_env_cloth 4 ''frag'' [square_obj] = Inr ([], Some env0)"
    by (elim exE conjE) simp
  with c have msgs': "msgs' = []"
    by simp
  have 1: "create_frag_env_cloth 3 ''frag'' [square_obj] = Inr ([ClothTooManyVerticesError 3 4], None)"
    using a unfolding msgs square_obj_facts(1) by simp
  have 2: "create_fragment_xml_cloth 3 () ''frag'' [square_obj] square_frag =
     Inr ([ClothTooManyVerticesError 3 4], square_frag)"
    using b unfolding msgs square_obj_facts(1) by simp
  have 3: "\<exists>env frag_xml'. create_frag_env_cloth 4 ''frag'' [square_obj] = Inr ([], Some env) \<and>
      vertex_count_high env = 4 \<and>
      create_fragment_xml_cloth 4 () ''frag'' [square_obj] square_frag = Inr ([], frag_xml') \<and>
      cloths frag_xml' = [env]"
    using c d e f unfolding msgs' square_obj_facts(1)
    by (intro exI [of _ env] exI [of _ frag_xml'] conjI)
  show ?thesis
    using 1 2 3 by (intro conjI)
qed

section \<open>Properties of the links\<close>


lemma children_by_group_loop_eq:
  assumes "\<forall>p\<in>set xs. py_index n (group_index (snd p)) \<noteq> None"
  shows "children_by_group_loop n xs d =
     Inr (fold (\<lambda>p d. defaultdict_append d (the (py_index n (group_index (snd p)))) p) xs d)"
  using assms
proof (induction xs arbitrary: d)
  case Nil
  then show ?case by simp
next
  case (Cons x xs)
  obtain i c where x: "x = (i, c)" by (cases x)
  from Cons.prems obtain g where g: "py_index n (group_index c) = Some g"
    by (auto simp: x)
  from Cons.prems have "\<forall>p\<in>set xs. py_index n (group_index (snd p)) \<noteq> None"
    by simp
  from Cons.IH [OF this] show ?case
    by (simp add: x g)
qed

lemma children_by_group_loop_error:
  assumes "\<not> (\<forall>p\<in>set xs. py_index n (group_index (snd p)) \<noteq> None)"
  shows "children_by_group_loop n xs d = Inl IndexError"
  using assms
proof (induction xs arbitrary: d)
  case Nil
  then show ?case by simp
next
  case (Cons x xs)
  obtain i c where x: "x = (i, c)" by (cases x)
  show ?case
  proof (cases "py_index n (group_index c)")
    case None
    then show ?thesis by (simp add: x)
  next
    case (Some g)
    with Cons.prems have "\<not> (\<forall>p\<in>set xs. py_index n (group_index (snd p)) \<noteq> None)"
      by (simp add: x)
    from Cons.IH [OF this] show ?thesis
      by (simp add: x Some)
  qed
qed

lemma fold_append_group_pairs:
  "fold (\<lambda>p d. defaultdict_append d (key p) p) xs [] = group_pairs (map (\<lambda>p. (key p, p)) xs)"
  unfolding group_pairs_def fold_map by (simp add: comp_def)

lemma children_of_group_pairs:
  "children_of_group (group_pairs (map (\<lambda>p. (key p, p)) xs)) g = filter (\<lambda>p. key p = g) xs"
proof -
  have 1: "map snd (filter (\<lambda>p. fst p = g) (map (\<lambda>p. (key p, p)) xs)) = filter (\<lambda>p. key p = g) xs"
    by (induction xs) simp_all
  have 2: "g \<notin> key ` set xs \<Longrightarrow> filter (\<lambda>p. key p = g) xs = []"
    by (auto simp: filter_empty_conv)
  have 3: "fst ` set (map (\<lambda>p. (key p, p)) xs) = key ` set xs"
    by (simp add: image_image)
  show ?thesis
    unfolding children_of_group_def group_pairs_get 3 using 1 2 by simp
qed

lemma children_by_group_loop_result:
  "children_by_group_loop n xs [] = Inr d \<Longrightarrow>
   (\<forall>p\<in>set xs. py_index n (group_index (snd p)) \<noteq> None) \<and>
   (\<forall>g. children_of_group d g = filter (\<lambda>p. py_index n (group_index (snd p)) = Some g) xs)"
proof -
  assume r: "children_by_group_loop n xs [] = Inr d"
  have v: "\<forall>p\<in>set xs. py_index n (group_index (snd p)) \<noteq> None"
  proof (rule ccontr)
    assume "\<not> ?thesis"
    from children_by_group_loop_error [OF this, of "[]"] r show False by simp
  qed
  have d: "d = group_pairs (map (\<lambda>p. (the (py_index n (group_index (snd p))), p)) xs)"
    using r unfolding children_by_group_loop_eq [OF v] fold_append_group_pairs by simp
  have "filter (\<lambda>p. the (py_index n (group_index (snd p))) = g) xs =
        filter (\<lambda>p. py_index n (group_index (snd p)) = Some g) xs" for g
    using v by (intro filter_cong refl) auto
  then show ?thesis
    using v unfolding d children_of_group_pairs by simp
qed


lemma find_filter: "find P xs = (case filter P xs of [] \<Rightarrow> None | x # _ \<Rightarrow> Some x)"
  by (induction xs) simp_all

lemma filter_enumerate_snd:
  "map snd (filter (\<lambda>p. P (snd p)) (enumerate k xs)) = filter P xs"
  by (induction xs arbitrary: k) simp_all

lemma py_index_in_range: "0 \<le> i \<Longrightarrow> i < int n \<Longrightarrow> py_index n i = Some (nat i)"
  by (simp add: py_index_def)

lemma children_of_group_wf:
  assumes wf: "links_wf frag_xml"
    and cbg: "children_by_group_loop (length (groups (lod1 frag_xml)))
                (enumerate 0 (children (lod1 frag_xml))) [] = Inr d"
  shows "children_of_group d g =
     filter (\<lambda>p. group_index (snd p) = int g) (enumerate 0 (children (lod1 frag_xml)))"
proof -
  let ?n = "length (groups (lod1 frag_xml))"
  let ?cs = "children (lod1 frag_xml)"
  have r: "0 \<le> group_index c \<and> group_index c < int ?n" if "c \<in> set ?cs" for c
    using wf that unfolding links_wf_def by blast
  have "py_index ?n (group_index (snd p)) = Some g \<longleftrightarrow> group_index (snd p) = int g"
    if "p \<in> set (enumerate 0 ?cs)" for p
  proof -
    have "snd p \<in> set ?cs"
      using that nth_mem [of "fst p" ?cs] by (auto simp: in_set_enumerate_eq)
    from r [OF this] show ?thesis
      by (auto simp: py_index_in_range)
  qed
  then have "filter (\<lambda>p. py_index ?n (group_index (snd p)) = Some g) (enumerate 0 ?cs) =
      filter (\<lambda>p. group_index (snd p) = int g) (enumerate 0 ?cs)"
    by (intro filter_cong refl)
  then show ?thesis
    using children_by_group_loop_result [OF cbg] by simp
qed

lemma first_child_wf:
  assumes wf: "links_wf frag_xml"
    and cbg: "children_by_group_loop (length (groups (lod1 frag_xml)))
                (enumerate 0 (children (lod1 frag_xml))) [] = Inr d"
    and g: "g < length (groups (lod1 frag_xml))"
  shows "\<exists>i c rest b. children_of_group d g = (i, c) # rest \<and>
           find (\<lambda>b. tag b = bone_tag c) (bones frag_xml) = Some b \<and>
           first_child_bone frag_xml g = Some b"
proof -
  let ?cs = "children (lod1 frag_xml)"
  let ?P = "\<lambda>c. group_index c = int g"
  let ?fs = "filter (\<lambda>p. ?P (snd p)) (enumerate 0 ?cs)"
  have m: "map snd ?fs = filter ?P ?cs"
    by (rule filter_enumerate_snd)
  from wf g obtain c' where "c' \<in> set ?cs" "?P c'"
    unfolding links_wf_def by blast
  then have "filter ?P ?cs \<noteq> []"
    by (auto simp: filter_empty_conv)
  with m obtain p rest where fs: "?fs = p # rest"
    by (cases ?fs) auto
  obtain i c where p: "p = (i, c)" by (cases p)
  from m fs p have fc: "filter ?P ?cs = c # map snd rest"
    by simp
  then have fnd: "find ?P ?cs = Some c"
    by (simp add: find_filter)
  have "c \<in> set (filter ?P ?cs)"
    unfolding fc by simp
  then have "c \<in> set ?cs"
    by simp
  with wf obtain b' where "b' \<in> set (bones frag_xml)" "tag b' = bone_tag c"
    unfolding links_wf_def by blast
  then have "find (\<lambda>b. tag b = bone_tag c) (bones frag_xml) \<noteq> None"
    by (auto simp: find_None_iff)
  then obtain b where b: "find (\<lambda>b. tag b = bone_tag c) (bones frag_xml) = Some b"
    by auto
  have 1: "children_of_group d g = (i, c) # rest"
    unfolding children_of_group_wf [OF wf cbg] fs p ..
  have 2: "first_child_bone frag_xml g = Some b"
    by (simp add: first_child_bone_def fnd b)
  show ?thesis
    using 1 b 2 by blast
qed

lemma choose_link_wf:
  assumes wf: "links_wf frag_xml"
    and cbg: "children_by_group_loop (length (groups (lod1 frag_xml)))
                (enumerate 0 (children (lod1 frag_xml))) [] = Inr d"
    and g: "g < length (groups (lod1 frag_xml))"
  shows "choose_link (bones frag_xml) (rotation_limits frag_xml) (translation_limits frag_xml) d g
           (groups (lod1 frag_xml) ! g) st =
     (if \<not> has_parent frag_xml g then Inr (0, st)
      else if has_joint frag_xml g
      then Inr (int (length (links st)), st\<lparr>links := links st @ [[]]\<rparr>)
      else (case py_get (link_index_by_group st) (parent_index (groups (lod1 frag_xml) ! g)) of
              Inl e \<Rightarrow> Inl e
            | Inr link_index \<Rightarrow> Inr (link_index, st)))"
proof -
  from first_child_wf [OF wf cbg g] obtain i c rest b where
    1: "children_of_group d g = (i, c) # rest"
    and 2: "find (\<lambda>b. tag b = bone_tag c) (bones frag_xml) = Some b"
    and 3: "first_child_bone frag_xml g = Some b"
    by blast
  show ?thesis
    by (simp add: choose_link_def has_parent_def has_joint_def 1 2 3)
qed


lemma links_before_Suc:
  "links_before frag_xml (Suc k) = links_before frag_xml k + (if starts_link frag_xml k then 1 else 0)"
  by (simp add: links_before_def)

lemma links_before_mono: "j \<le> k \<Longrightarrow> links_before frag_xml j \<le> links_before frag_xml k"
proof (induction k)
  case 0
  then show ?case by simp
next
  case (Suc k)
  then show ?case
    by (cases "j = Suc k") (simp_all add: links_before_Suc)
qed

lemma link_append_filter:
  assumes ls: "\<forall>l<length ls. ls ! l = filter (\<lambda>g. lbg ! g = int l) [0..<k]"
    and k: "k < length lbg" and l0: "l0 < length ls" and l: "l < length ls"
  shows "ls[l0 := ls ! l0 @ [k]] ! l = filter (\<lambda>g. lbg[k := int l0] ! g = int l) [0..<Suc k]"
proof -
  have "filter (\<lambda>g. lbg[k := int l0] ! g = int l) [0..<k] = filter (\<lambda>g. lbg ! g = int l) [0..<k]"
    by (intro filter_cong refl) simp
  then have r: "filter (\<lambda>g. lbg[k := int l0] ! g = int l) [0..<Suc k] =
      ls ! l @ (if l0 = l then [k] else [])"
    using ls l k by simp
  show ?thesis
    unfolding r using l0 l by (simp add: nth_list_update)
qed

lemma links_inv_extend:
  assumes wf: "links_wf frag_xml"
    and k: "k < length (groups (lod1 frag_xml))"
    and inv: "links_inv frag_xml k st"
    and a: "length ls1 = Suc (links_before frag_xml (Suc k))"
    and b: "\<forall>l<length ls1. ls1 ! l = filter (\<lambda>g. link_index_by_group st ! g = int l) [0..<k]"
    and c: "0 \<le> li" "li \<le> int (links_before frag_xml (Suc k))"
    and d: "link_rule frag_xml ((link_index_by_group st)[k := li]) k"
  shows "links_inv frag_xml (Suc k)
           \<lparr>links = ls1[nat li := ls1 ! nat li @ [k]],
            link_index_by_group = (link_index_by_group st)[k := li]\<rparr>"
proof -
  let ?lbg = "link_index_by_group st"
  let ?lbg' = "?lbg[k := li]"
  let ?gs = "groups (lod1 frag_xml)"
  from inv have len: "length ?lbg = length ?gs"
    and range: "\<forall>g<k. 0 \<le> ?lbg ! g \<and> ?lbg ! g \<le> int (links_before frag_xml (Suc g))"
    and rules: "\<forall>g<k. link_rule frag_xml ?lbg g"
    unfolding links_inv_def by simp_all
  have kl: "k < length ?lbg"
    using k len by simp
  have l0: "nat li < length ls1"
    using a c by simp
  have 1: "length ?lbg' = length ?gs"
    using len by simp
  have 2: "length (ls1[nat li := ls1 ! nat li @ [k]]) = Suc (links_before frag_xml (Suc k))"
    using a by simp
  have 3: "0 \<le> ?lbg' ! g \<and> ?lbg' ! g \<le> int (links_before frag_xml (Suc g))" if "g < Suc k" for g
  proof (cases "g = k")
    case True
    then show ?thesis using c kl by simp
  next
    case False
    with that have "g < k" by simp
    with range False show ?thesis by simp
  qed
  have 4: "link_rule frag_xml ?lbg' g" if "g < Suc k" for g
  proof (cases "g = k")
    case True
    then show ?thesis using d by simp
  next
    case False
    with that have gk: "g < k" by simp
    then have g: "g < length ?gs" using k by simp
    from rules gk have r: "link_rule frag_xml ?lbg g" by simp
    have same: "?lbg' ! g = ?lbg ! g"
      using False by simp
    have par: "has_parent frag_xml g \<Longrightarrow> ?lbg' ! nat (parent_index (?gs ! g)) = ?lbg ! nat (parent_index (?gs ! g))"
    proof -
      assume "has_parent frag_xml g"
      then have "parent_index (?gs ! g) \<noteq> 255"
        by (simp add: has_parent_def)
      with wf g have "0 \<le> parent_index (?gs ! g) \<and> parent_index (?gs ! g) < int g"
        unfolding links_wf_def by blast
      with gk have "nat (parent_index (?gs ! g)) \<noteq> k"
        by linarith
      then show ?thesis by simp
    qed
    show ?thesis
      using r same par unfolding link_rule_def by simp
  qed
  have 5: "ls1[nat li := ls1 ! nat li @ [k]] ! l = filter (\<lambda>g. ?lbg' ! g = int l) [0..<Suc k]"
    if "l < length (ls1[nat li := ls1 ! nat li @ [k]])" for l
  proof -
    from that have l: "l < length ls1" by simp
    have "int (nat li) = li" using c by simp
    with link_append_filter [OF b kl l0 l] show ?thesis by simp
  qed
  show ?thesis
    unfolding links_inv_def using 1 2 3 4 5 by simp
qed


lemma link_step_eval:
  assumes "choose_link bones_xml rls tls d k grp st = Inr (li, st1)"
    and "0 \<le> li" and "li < int (length (links st1))"
  shows "link_step bones_xml rls tls d (k, grp) st =
     Inr \<lparr>links = (links st1)[nat li := links st1 ! nat li @ [k]],
          link_index_by_group = (link_index_by_group st1)[k := li]\<rparr>"
  using assms by (simp add: link_step_def py_index_def)

lemma link_step_inv:
  assumes wf: "links_wf frag_xml"
    and cbg: "children_by_group_loop (length (groups (lod1 frag_xml)))
                (enumerate 0 (children (lod1 frag_xml))) [] = Inr d"
    and k: "k < length (groups (lod1 frag_xml))"
    and inv: "links_inv frag_xml k st"
  shows "\<exists>st'. link_step (bones frag_xml) (rotation_limits frag_xml) (translation_limits frag_xml) d
                 (k, groups (lod1 frag_xml) ! k) st = Inr st' \<and>
               links_inv frag_xml (Suc k) st'"
proof -
  let ?lbg = "link_index_by_group st"
  let ?ls = "links st"
  let ?gs = "groups (lod1 frag_xml)"
  let ?J = "links_before frag_xml"
  let ?step = "link_step (bones frag_xml) (rotation_limits frag_xml) (translation_limits frag_xml) d
                 (k, ?gs ! k) st"
  from inv have len: "length ?lbg = length ?gs"
    and llen: "length ?ls = Suc (?J k)"
    and range: "\<forall>g<k. 0 \<le> ?lbg ! g \<and> ?lbg ! g \<le> int (?J (Suc g))"
    and lsP: "\<forall>l<length ?ls. ?ls ! l = filter (\<lambda>g. ?lbg ! g = int l) [0..<k]"
    unfolding links_inv_def by simp_all
  have kl: "k < length ?lbg"
    using k len by simp
  note ch = choose_link_wf [OF wf cbg k, of st]
  note ext = links_inv_extend [OF wf k inv]
  consider (root) "\<not> has_parent frag_xml k"
    | (joint) "has_parent frag_xml k" "has_joint frag_xml k"
    | (same) "has_parent frag_xml k" "\<not> has_joint frag_xml k"
    by blast
  then show ?thesis
  proof cases
    case root
    then have J: "?J (Suc k) = ?J k"
      by (simp add: links_before_Suc starts_link_def)
    have c: "choose_link (bones frag_xml) (rotation_limits frag_xml) (translation_limits frag_xml) d k
           (?gs ! k) st = Inr (0, st)"
      using ch root by simp
    have s: "?step = Inr \<lparr>links = ?ls[nat 0 := ?ls ! nat 0 @ [k]], link_index_by_group = ?lbg[k := 0]\<rparr>"
      by (rule link_step_eval [OF c]) (simp_all add: llen)
    have d: "link_rule frag_xml (?lbg[k := 0]) k"
      using root kl by (simp add: link_rule_def starts_link_def)
    have "links_inv frag_xml (Suc k)
        \<lparr>links = ?ls[nat 0 := ?ls ! nat 0 @ [k]], link_index_by_group = ?lbg[k := 0]\<rparr>"
      by (rule ext [OF _ lsP _ _ d]) (simp_all add: llen J)
    with s show ?thesis by blast
  next
    case joint
    then have J: "?J (Suc k) = Suc (?J k)"
      by (simp add: links_before_Suc starts_link_def)
    let ?li = "int (length ?ls)"
    let ?st1 = "st\<lparr>links := ?ls @ [[]]\<rparr>"
    have c: "choose_link (bones frag_xml) (rotation_limits frag_xml) (translation_limits frag_xml) d k
           (?gs ! k) st = Inr (?li, ?st1)"
      using ch joint by simp
    have s: "?step = Inr \<lparr>links = (links ?st1)[nat ?li := links ?st1 ! nat ?li @ [k]],
                           link_index_by_group = (link_index_by_group ?st1)[k := ?li]\<rparr>"
      by (rule link_step_eval [OF c]) simp_all
    have b: "\<forall>l<length (?ls @ [[]]). (?ls @ [[]]) ! l = filter (\<lambda>g. ?lbg ! g = int l) [0..<k]"
    proof (intro allI impI)
      fix l
      assume l: "l < length (?ls @ [[]])"
      show "(?ls @ [[]]) ! l = filter (\<lambda>g. ?lbg ! g = int l) [0..<k]"
      proof (cases "l < length ?ls")
        case True
        then show ?thesis
          using lsP by (simp add: nth_append)
      next
        case False
        with l have le: "l = length ?ls" by simp
        have "?lbg ! g \<noteq> int l" if "g < k" for g
        proof -
          from range that have "?lbg ! g \<le> int (?J (Suc g))" by simp
          moreover have "?J (Suc g) \<le> ?J k"
            using that by (intro links_before_mono) simp
          ultimately show ?thesis
            unfolding le llen by linarith
        qed
        then have "filter (\<lambda>g. ?lbg ! g = int l) [0..<k] = []"
          by (simp add: filter_empty_conv)
        then show ?thesis
          by (simp add: le)
      qed
    qed
    have d: "link_rule frag_xml (?lbg[k := ?li]) k"
      using joint kl by (simp add: link_rule_def llen)
    have "links_inv frag_xml (Suc k)
        \<lparr>links = (?ls @ [[]])[nat ?li := (?ls @ [[]]) ! nat ?li @ [k]],
         link_index_by_group = ?lbg[k := ?li]\<rparr>"
      by (rule ext [OF _ b _ _ d]) (simp_all add: llen J)
    with s show ?thesis by simp
  next
    case same
    then have J: "?J (Suc k) = ?J k"
      by (simp add: links_before_Suc starts_link_def)
    let ?p = "parent_index (?gs ! k)"
    from same(1) have "?p \<noteq> 255"
      by (simp add: has_parent_def)
    with wf k have p: "0 \<le> ?p" "?p < int k"
      unfolding links_wf_def by blast+
    then have pk: "nat ?p < k" by linarith
    let ?li = "?lbg ! nat ?p"
    have g: "py_get ?lbg ?p = Inr ?li"
      using p kl by (simp add: py_get_def py_index_in_range)
    have c: "choose_link (bones frag_xml) (rotation_limits frag_xml) (translation_limits frag_xml) d k
           (?gs ! k) st = Inr (?li, st)"
      using ch same g by simp
    from range pk have li: "0 \<le> ?li" "?li \<le> int (?J (Suc (nat ?p)))"
      by simp_all
    have "?J (Suc (nat ?p)) \<le> ?J k"
      using pk by (intro links_before_mono) simp
    with li have li2: "?li \<le> int (?J k)" by linarith
    have s: "?step = Inr \<lparr>links = ?ls[nat ?li := ?ls ! nat ?li @ [k]],
                           link_index_by_group = ?lbg[k := ?li]\<rparr>"
      by (rule link_step_eval [OF c li(1)]) (use li2 llen in simp)
    have d: "link_rule frag_xml (?lbg[k := ?li]) k"
      using same kl pk by (simp add: link_rule_def starts_link_def)
    have "links_inv frag_xml (Suc k)
        \<lparr>links = ?ls[nat ?li := ?ls ! nat ?li @ [k]], link_index_by_group = ?lbg[k := ?li]\<rparr>"
      by (rule ext [OF _ lsP li(1) _ d]) (simp_all add: llen J li2)
    with s show ?thesis by blast
  qed
qed

lemma links_loop_inv:
  assumes wf: "links_wf frag_xml"
    and cbg: "children_by_group_loop (length (groups (lod1 frag_xml)))
                (enumerate 0 (children (lod1 frag_xml))) [] = Inr d"
  shows "drop k (groups (lod1 frag_xml)) = gs \<Longrightarrow> k \<le> length (groups (lod1 frag_xml)) \<Longrightarrow>
     links_inv frag_xml k st \<Longrightarrow>
     \<exists>st'. links_loop (bones frag_xml) (rotation_limits frag_xml) (translation_limits frag_xml) d
              (enumerate k gs) st = Inr st' \<and>
           links_inv frag_xml (length (groups (lod1 frag_xml))) st'"
proof (induction gs arbitrary: k st)
  case Nil
  then have "k = length (groups (lod1 frag_xml))" by simp
  with Nil show ?case by simp
next
  case (Cons x gs)
  from Cons.prems(1) have k: "k < length (groups (lod1 frag_xml))"
    by (cases "k < length (groups (lod1 frag_xml))") simp_all
  from Cons.prems(1) have x: "groups (lod1 frag_xml) ! k = x"
    and rest: "drop (Suc k) (groups (lod1 frag_xml)) = gs"
    using Cons_nth_drop_Suc [OF k] by simp_all
  from link_step_inv [OF wf cbg k Cons.prems(3)] x obtain st1 where
    s: "link_step (bones frag_xml) (rotation_limits frag_xml) (translation_limits frag_xml) d
          (k, x) st = Inr st1"
    and i: "links_inv frag_xml (Suc k) st1"
    by auto
  from Cons.IH [OF rest _ i] k obtain st' where
    "links_loop (bones frag_xml) (rotation_limits frag_xml) (translation_limits frag_xml) d
       (enumerate (Suc k) gs) st1 = Inr st'"
    and "links_inv frag_xml (length (groups (lod1 frag_xml))) st'"
    by auto
  with s show ?case by simp
qed

lemma links_inv_initial:
  "links_inv frag_xml 0 \<lparr>links = [[]], link_index_by_group = replicate (length (groups (lod1 frag_xml))) (- 1)\<rparr>"
  by (simp add: links_inv_def links_before_def)

lemma physics_links_wf:
  assumes wf: "links_wf frag_xml"
  shows "\<exists>d st. physics_links frag_xml = Inr (d, st) \<and>
           children_by_group_loop (length (groups (lod1 frag_xml)))
                (enumerate 0 (children (lod1 frag_xml))) [] = Inr d \<and>
           links_inv frag_xml (length (groups (lod1 frag_xml))) st"
proof -
  let ?n = "length (groups (lod1 frag_xml))"
  let ?cs = "children (lod1 frag_xml)"
  have "\<forall>p\<in>set (enumerate 0 ?cs). py_index ?n (group_index (snd p)) \<noteq> None"
  proof
    fix p
    assume "p \<in> set (enumerate 0 ?cs)"
    then have "snd p \<in> set ?cs"
      using nth_mem [of "fst p" ?cs] by (auto simp: in_set_enumerate_eq)
    with wf have "0 \<le> group_index (snd p) \<and> group_index (snd p) < int ?n"
      unfolding links_wf_def by blast
    then show "py_index ?n (group_index (snd p)) \<noteq> None"
      by (simp add: py_index_in_range)
  qed
  from children_by_group_loop_eq [OF this, of "[]"]
  obtain d where d: "children_by_group_loop ?n (enumerate 0 ?cs) [] = Inr d"
    by blast
  from links_loop_inv [OF wf d, of 0 "groups (lod1 frag_xml)", OF _ _ links_inv_initial]
  obtain st where
    "links_loop (bones frag_xml) (rotation_limits frag_xml) (translation_limits frag_xml) d
       (enumerate 0 (groups (lod1 frag_xml)))
       \<lparr>links = [[]], link_index_by_group = replicate ?n (- 1)\<rparr> = Inr st"
    and "links_inv frag_xml ?n st"
    by auto
  then show ?thesis
    using d by (simp add: physics_links_def)
qed

text \<open>
  Claim C2, as the code has it. In a LOD in which the group index of every child is the
  index of a group, every group has a child, the bone tag of every child is the tag of a
  bone and the parent index of every group is 255 or the index of an earlier group, the
  loop returns, the links are one more than the groups with a parent and a joint, and each
  link holds, in ascending order, the groups that \<open>link_index_by_group\<close> sends to it. A
  group without a parent is in link 0; a group with a parent and a joint on the bone of its
  first child is in a link of its own making, which is not the root link and holds no
  earlier group; any other group is in the link of its parent.
\<close>

theorem physics_link_partition:
  assumes "\<forall>c\<in>set (children (lod1 frag_xml)).
             0 \<le> group_index c \<and> group_index c < int (length (groups (lod1 frag_xml)))"
    and "\<forall>g<length (groups (lod1 frag_xml)).
             \<exists>c\<in>set (children (lod1 frag_xml)). group_index c = int g"
    and "\<forall>c\<in>set (children (lod1 frag_xml)). \<exists>b\<in>set (bones frag_xml). tag b = bone_tag c"
    and "\<forall>g<length (groups (lod1 frag_xml)).
             parent_index (groups (lod1 frag_xml) ! g) = 255 \<or>
             (0 \<le> parent_index (groups (lod1 frag_xml) ! g) \<and>
              parent_index (groups (lod1 frag_xml) ! g) < int g)"
  shows "\<exists>d st. physics_links frag_xml = Inr (d, st) \<and>
     length (link_index_by_group st) = length (groups (lod1 frag_xml)) \<and>
     length (links st) = Suc (links_before frag_xml (length (groups (lod1 frag_xml)))) \<and>
     (\<forall>l<length (links st).
        links st ! l =
          filter (\<lambda>g. link_index_by_group st ! g = int l) [0..<length (groups (lod1 frag_xml))]) \<and>
     (\<forall>g<length (groups (lod1 frag_xml)).
        0 \<le> link_index_by_group st ! g \<and> link_index_by_group st ! g < int (length (links st))) \<and>
     (\<forall>g<length (groups (lod1 frag_xml)).
        parent_index (groups (lod1 frag_xml) ! g) = 255 \<longrightarrow> link_index_by_group st ! g = 0) \<and>
     (\<forall>g<length (groups (lod1 frag_xml)).
        parent_index (groups (lod1 frag_xml) ! g) \<noteq> 255 \<and> has_joint frag_xml g \<longrightarrow>
          0 < link_index_by_group st ! g \<and>
          (\<forall>g'<g. link_index_by_group st ! g' \<noteq> link_index_by_group st ! g)) \<and>
     (\<forall>g<length (groups (lod1 frag_xml)).
        parent_index (groups (lod1 frag_xml) ! g) \<noteq> 255 \<and> \<not> has_joint frag_xml g \<longrightarrow>
          link_index_by_group st ! g =
            link_index_by_group st ! nat (parent_index (groups (lod1 frag_xml) ! g)))"
proof -
  let ?n = "length (groups (lod1 frag_xml))"
  let ?gs = "groups (lod1 frag_xml)"
  let ?J = "links_before frag_xml"
  have wf: "links_wf frag_xml"
    unfolding links_wf_def using assms by (intro conjI)
  from physics_links_wf [OF wf] obtain d st where
    r: "physics_links frag_xml = Inr (d, st)" and inv: "links_inv frag_xml ?n st"
    by blast
  let ?lbg = "link_index_by_group st"
  from inv have len: "length ?lbg = ?n"
    and llen: "length (links st) = Suc (?J ?n)"
    and range: "\<forall>g<?n. 0 \<le> ?lbg ! g \<and> ?lbg ! g \<le> int (?J (Suc g))"
    and rules: "\<forall>g<?n. link_rule frag_xml ?lbg g"
    and part: "\<forall>l<length (links st). links st ! l = filter (\<lambda>g. ?lbg ! g = int l) [0..<?n]"
    unfolding links_inv_def by simp_all
  have 1: "0 \<le> ?lbg ! g \<and> ?lbg ! g < int (length (links st))" if "g < ?n" for g
  proof -
    from range that have a: "0 \<le> ?lbg ! g" and b: "?lbg ! g \<le> int (?J (Suc g))"
      by simp_all
    have "?J (Suc g) \<le> ?J ?n"
      using that by (intro links_before_mono) simp
    with a b show ?thesis
      unfolding llen by linarith
  qed
  have 2: "?lbg ! g = 0" if "g < ?n" "parent_index (?gs ! g) = 255" for g
    using rules that by (simp add: link_rule_def has_parent_def)
  have 3: "0 < ?lbg ! g \<and> (\<forall>g'<g. ?lbg ! g' \<noteq> ?lbg ! g)"
    if "g < ?n" "parent_index (?gs ! g) \<noteq> 255 \<and> has_joint frag_xml g" for g
  proof -
    from rules that have e: "?lbg ! g = int (Suc (?J g))"
      by (simp add: link_rule_def starts_link_def has_parent_def)
    have "?lbg ! g' \<noteq> ?lbg ! g" if "g' < g" for g'
    proof -
      from range that \<open>g < ?n\<close> have "?lbg ! g' \<le> int (?J (Suc g'))"
        by simp
      moreover have "?J (Suc g') \<le> ?J g"
        using that by (intro links_before_mono) simp
      ultimately show ?thesis
        unfolding e by linarith
    qed
    then show ?thesis
      using e by simp
  qed
  have 4: "?lbg ! g = ?lbg ! nat (parent_index (?gs ! g))"
    if "g < ?n" "parent_index (?gs ! g) \<noteq> 255 \<and> \<not> has_joint frag_xml g" for g
    using rules that by (simp add: link_rule_def has_parent_def)
  show ?thesis
    apply (rule exI [of _ d], rule exI [of _ st])
    apply (intro conjI allI impI)
    using r len llen part 1 2 3 4 by simp_all
qed

lemma door_frag_links:
  "physics_links door_frag =
     Inr ([(0, [(0, link_example_child 0 10)]), (1, [(1, link_example_child 1 11)]),
           (2, [(2, link_example_child 2 12)])],
          \<lparr>links = [[0], [1, 2]], link_index_by_group = [0, 1, 1]\<rparr>)"
  by (simp add: physics_links_def door_frag_def link_example_lod_def py_index_def
      defaultdict_append_def link_step_def choose_link_def children_of_group_def
      creates_new_link_def py_get_def link_example_child_def)

text \<open>
  The body, the door on its hinge and the handle on the door: the door starts link 1 and
  the handle is in it.
\<close>

theorem physics_link_partition_witness:
  "\<exists>d st. physics_links door_frag = Inr (d, st) \<and>
     links st = [[0], [1, 2]] \<and> link_index_by_group st = [0, 1, 1] \<and>
     length (links st) = Suc (links_before door_frag (length (groups (lod1 door_frag))))"
proof -
  have n: "length (groups (lod1 door_frag)) = 3"
    by (simp add: door_frag_def link_example_lod_def)
  have less3: "(\<forall>g<3. P g) \<longleftrightarrow> P 0 \<and> P 1 \<and> P (2::nat)" for P
    by (simp add: numeral_3_eq_3 All_less_Suc numeral_2_eq_2 conj_ac)
  have a: "\<forall>c\<in>set (children (lod1 door_frag)).
             0 \<le> group_index c \<and> group_index c < int (length (groups (lod1 door_frag)))"
    by (simp add: door_frag_def link_example_lod_def link_example_child_def)
  have b: "\<forall>g<length (groups (lod1 door_frag)).
             \<exists>c\<in>set (children (lod1 door_frag)). group_index c = int g"
    unfolding n less3 by (simp add: door_frag_def link_example_lod_def link_example_child_def)
  have c: "\<forall>c\<in>set (children (lod1 door_frag)). \<exists>b\<in>set (bones door_frag). tag b = bone_tag c"
    by (simp add: door_frag_def link_example_lod_def link_example_child_def)
  have d: "\<forall>g<length (groups (lod1 door_frag)).
             parent_index (groups (lod1 door_frag) ! g) = 255 \<or>
             (0 \<le> parent_index (groups (lod1 door_frag) ! g) \<and>
              parent_index (groups (lod1 door_frag) ! g) < int g)"
    unfolding n less3 by (simp add: door_frag_def link_example_lod_def)
  from physics_link_partition [OF a b c d] obtain dd st where
    r: "physics_links door_frag = Inr (dd, st)"
    and l: "length (links st) = Suc (links_before door_frag (length (groups (lod1 door_frag))))"
    by blast
  from r have st: "st = \<lparr>links = [[0], [1, 2]], link_index_by_group = [0, 1, 1]\<rparr>"
    unfolding door_frag_links by simp
  show ?thesis
    apply (rule exI [of _ dd], rule exI [of _ st])
    using r l st by simp
qed

text \<open>
  Without the order of the groups the claim fails. Four groups, each with one child on a
  bone of its own; the door has a joint; the handle names the roof, a later group, as its
  parent and has no joint. When the handle is visited the roof has no link index yet, and
  the \<open>- 1\<close> that is read for it selects the last link: the handle is in link 1 with the
  door, its parent in link 0.
\<close>

theorem physics_links_forward_parent:
  "map_sum id snd (physics_links forward_parent_frag) =
     Inr \<lparr>links = [[0, 3], [1, 2]], link_index_by_group = [0, 1, - 1, 0]\<rparr> \<and>
   parent_index (groups (lod1 forward_parent_frag) ! 2) = 3 \<and>
   \<not> has_joint forward_parent_frag 2"
  by (simp add: physics_links_def forward_parent_frag_def link_example_lod_def py_index_def
      defaultdict_append_def link_step_def choose_link_def children_of_group_def
      creates_new_link_def py_get_def link_example_child_def has_joint_def first_child_bone_def)

section \<open>Properties of the link centres of gravity\<close>


lemma py_index_Some_less: "py_index n i = Some j \<Longrightarrow> j < n"
  by (auto simp: py_index_def split: if_splits)

lemma py_index_mono: "py_index n i \<noteq> None \<Longrightarrow> n \<le> m \<Longrightarrow> py_index m i \<noteq> None"
  by (auto simp: py_index_def split: if_splits)

lemma choose_link_cases:
  assumes "choose_link bones_xml rls tls d k grp st = Inr (li, st1)"
  shows "link_index_by_group st1 = link_index_by_group st \<and>
         (links st1 = links st \<or> links st1 = links st @ [[]])"
  using assms
  by (auto simp: choose_link_def split: if_splits list.splits option.splits sum.splits)

lemma link_step_cases:
  assumes "link_step bones_xml rls tls d (k, grp) st = Inr st'"
  shows "\<exists>li ls1 l. (ls1 = links st \<or> ls1 = links st @ [[]]) \<and>
           py_index (length ls1) li = Some l \<and>
           st' = \<lparr>links = ls1[l := ls1 ! l @ [k]],
                  link_index_by_group = (link_index_by_group st)[k := li]\<rparr>"
proof (cases "choose_link bones_xml rls tls d k grp st")
  case (Inl e)
  with assms show ?thesis by (simp add: link_step_def)
next
  case (Inr r)
  obtain li st1 where r: "r = (li, st1)" by (cases r)
  from choose_link_cases [OF Inr [unfolded r]]
  have a: "link_index_by_group st1 = link_index_by_group st"
    and b: "links st1 = links st \<or> links st1 = links st @ [[]]"
    by simp_all
  show ?thesis
  proof (cases "py_index (length (links st1)) li")
    case None
    with assms Inr r show ?thesis by (simp add: link_step_def)
  next
    case (Some l)
    with assms Inr r a have "st' = \<lparr>links = (links st1)[l := links st1 ! l @ [k]],
                  link_index_by_group = (link_index_by_group st)[k := li]\<rparr>"
      by (simp add: link_step_def)
    with b Some show ?thesis by blast
  qed
qed

lemma link_step_ok:
  assumes s: "link_step bones_xml rls tls d (k, grp) st = Inr st'"
    and ok: "links_ok k st"
  shows "links_ok (Suc k) st' \<and> length (link_index_by_group st') = length (link_index_by_group st)"
proof -
  from link_step_cases [OF s] obtain li ls1 l where
    ls1: "ls1 = links st \<or> ls1 = links st @ [[]]"
    and l: "py_index (length ls1) li = Some l"
    and st': "st' = \<lparr>links = ls1[l := ls1 ! l @ [k]],
                  link_index_by_group = (link_index_by_group st)[k := li]\<rparr>"
    by blast
  from ok have ne: "links st \<noteq> []"
    and el: "\<forall>gs\<in>set (links st). distinct gs \<and> (\<forall>g\<in>set gs. g < k)"
    and ix: "\<forall>link_index\<in>set (link_index_by_group st). py_index (length (links st)) link_index \<noteq> None"
    unfolding links_ok_def by simp_all
  have ll: "l < length ls1"
    by (rule py_index_Some_less [OF l])
  have el1: "\<forall>gs\<in>set ls1. distinct gs \<and> (\<forall>g\<in>set gs. g < k)"
    using ls1 el by auto
  have len1: "length (links st) \<le> length ls1"
    using ls1 by auto
  have 1: "links st' \<noteq> []"
    using ls1 ne by (auto simp: st')
  have 2: "distinct gs \<and> (\<forall>g\<in>set gs. g < Suc k)" if "gs \<in> set (links st')" for gs
  proof -
    from that have "gs \<in> insert (ls1 ! l @ [k]) (set ls1)"
      using set_update_subset_insert [of ls1 l "ls1 ! l @ [k]"] by (auto simp: st')
    moreover have "distinct (ls1 ! l) \<and> (\<forall>g\<in>set (ls1 ! l). g < k)"
      using el1 ll nth_mem by blast
    then have "distinct (ls1 ! l @ [k]) \<and> (\<forall>g\<in>set (ls1 ! l @ [k]). g < Suc k)"
      by auto
    moreover have "distinct gs' \<and> (\<forall>g\<in>set gs'. g < Suc k)" if "gs' \<in> set ls1" for gs'
      using el1 that by (auto simp: less_Suc_eq)
    ultimately show ?thesis by blast
  qed
  have 3: "py_index (length (links st')) x \<noteq> None" if "x \<in> set (link_index_by_group st')" for x
  proof -
    from that have "x \<in> insert li (set (link_index_by_group st))"
      using set_update_subset_insert [of "link_index_by_group st" k li] by (auto simp: st')
    then consider "x = li" | "x \<in> set (link_index_by_group st)" by blast
    then show ?thesis
    proof cases
      case 1
      then show ?thesis using l by (simp add: st')
    next
      case 2
      with ix have "py_index (length (links st)) x \<noteq> None" by simp
      from py_index_mono [OF this len1] show ?thesis by (simp add: st')
    qed
  qed
  have 4: "length (link_index_by_group st') = length (link_index_by_group st)"
    by (simp add: st')
  show ?thesis
    unfolding links_ok_def using 1 2 3 4 by blast
qed

lemma links_loop_ok:
  "links_loop bones_xml rls tls d (enumerate k gs) st = Inr st' \<Longrightarrow> links_ok k st \<Longrightarrow>
   links_ok (k + length gs) st' \<and>
   length (link_index_by_group st') = length (link_index_by_group st)"
proof (induction gs arbitrary: k st)
  case Nil
  then show ?case by simp
next
  case (Cons x gs)
  show ?case
  proof (cases "link_step bones_xml rls tls d (k, x) st")
    case (Inl e)
    with Cons.prems(1) show ?thesis by simp
  next
    case (Inr st1)
    from link_step_ok [OF Inr Cons.prems(2)]
    have ok1: "links_ok (Suc k) st1"
      and len1: "length (link_index_by_group st1) = length (link_index_by_group st)"
      by simp_all
    from Cons.prems(1) Inr
    have "links_loop bones_xml rls tls d (enumerate (Suc k) gs) st1 = Inr st'"
      by simp
    from Cons.IH [OF this ok1] len1 show ?thesis by simp
  qed
qed

lemma links_ok_initial: "links_ok 0 \<lparr>links = [[]], link_index_by_group = replicate n (- 1)\<rparr>"
  by (simp add: links_ok_def py_index_def)

lemma physics_links_ok:
  assumes "physics_links frag_xml = Inr (d, st)"
  shows "children_by_group_loop (length (groups (lod1 frag_xml)))
           (enumerate 0 (children (lod1 frag_xml))) [] = Inr d"
    and "links_ok (length (groups (lod1 frag_xml))) st"
    and "length (link_index_by_group st) = length (groups (lod1 frag_xml))"
proof -
  let ?n = "length (groups (lod1 frag_xml))"
  let ?init = "\<lparr>links = [[]], link_index_by_group = replicate ?n (- 1)\<rparr>"
  from assms show d: "children_by_group_loop ?n (enumerate 0 (children (lod1 frag_xml))) [] = Inr d"
    by (auto simp: physics_links_def Let_def split: sum.splits)
  from assms d have
    "links_loop (bones frag_xml) (rotation_limits frag_xml) (translation_limits frag_xml) d
       (enumerate 0 (groups (lod1 frag_xml))) ?init = Inr st"
    by (auto simp: physics_links_def Let_def split: sum.splits)
  from links_loop_ok [OF this links_ok_initial]
  show "links_ok ?n st" and "length (link_index_by_group st) = ?n"
    by simp_all
qed

lemma link_children_loop_eq:
  assumes "\<forall>p\<in>set xs. fst p < length bs"
  shows "link_children_loop bs xs (cg, m) =
     Inr (cg + (\<Sum>p\<leftarrow>xs. vscale (child_center_of (bs ! fst p)) (pristine_mass (snd p))),
          m + (\<Sum>p\<leftarrow>xs. pristine_mass (snd p)))"
  using assms
proof (induction xs arbitrary: cg m)
  case Nil
  then show ?case by simp
next
  case (Cons x xs)
  obtain i c where x: "x = (i, c)" by (cases x)
  from Cons.prems have i: "i < length bs" and rest: "\<forall>p\<in>set xs. fst p < length bs"
    by (simp_all add: x)
  show ?case
    by (simp add: x i Cons.IH [OF rest] add.assoc)
qed

lemma link_groups_loop_eq:
  assumes "\<forall>g\<in>set gs. \<forall>p\<in>set (children_of_group d g). fst p < length bs"
  shows "link_groups_loop bs d gs (cg, m) =
     Inr (cg + (\<Sum>g\<leftarrow>gs. \<Sum>p\<leftarrow>children_of_group d g.
                   vscale (child_center_of (bs ! fst p)) (pristine_mass (snd p))),
          m + (\<Sum>g\<leftarrow>gs. \<Sum>p\<leftarrow>children_of_group d g. pristine_mass (snd p)))"
  using assms
proof (induction gs arbitrary: cg m)
  case Nil
  then show ?case by simp
next
  case (Cons g gs)
  from Cons.prems have g: "\<forall>p\<in>set (children_of_group d g). fst p < length bs"
    and rest: "\<forall>g\<in>set gs. \<forall>p\<in>set (children_of_group d g). fst p < length bs"
    by simp_all
  show ?case
    by (simp add: link_children_loop_eq [OF g] Cons.IH [OF rest] add.assoc)
qed

lemma sum_list_filter_disj:
  fixes f :: "'a \<Rightarrow> 'b::comm_monoid_add"
  assumes "\<forall>x\<in>set xs. \<not> (A x \<and> B x)"
  shows "(\<Sum>x\<leftarrow>filter (\<lambda>x. A x \<or> B x) xs. f x) =
         (\<Sum>x\<leftarrow>filter A xs. f x) + (\<Sum>x\<leftarrow>filter B xs. f x)"
  using assms
proof (induction xs)
  case Nil
  then show ?case by simp
next
  case (Cons x xs)
  then have IH: "(\<Sum>x\<leftarrow>filter (\<lambda>x. A x \<or> B x) xs. f x) =
         (\<Sum>x\<leftarrow>filter A xs. f x) + (\<Sum>x\<leftarrow>filter B xs. f x)"
    by simp
  from Cons.prems have "\<not> (A x \<and> B x)" by simp
  then consider "A x" "\<not> B x" | "\<not> A x" "B x" | "\<not> A x" "\<not> B x" by blast
  then show ?case
  proof cases
    case 1
    then show ?thesis by (simp add: IH add.assoc)
  next
    case 2
    then show ?thesis by (simp add: IH add.left_commute)
  next
    case 3
    then show ?thesis by (simp add: IH)
  qed
qed

lemma sum_list_by_groups:
  fixes f :: "'a \<Rightarrow> 'b::comm_monoid_add"
  assumes "distinct gs"
  shows "(\<Sum>g\<leftarrow>gs. \<Sum>x\<leftarrow>filter (\<lambda>x. key x = Some g) xs. f x) =
         (\<Sum>x\<leftarrow>filter (\<lambda>x. case key x of None \<Rightarrow> False | Some g \<Rightarrow> g \<in> set gs) xs. f x)"
  using assms
proof (induction gs)
  case Nil
  have "filter (\<lambda>x. case key x of None \<Rightarrow> False | Some g \<Rightarrow> g \<in> set []) xs = []"
    by (auto simp: filter_empty_conv split: option.splits)
  then show ?case by (simp only: list.map sum_list.Nil)
next
  case (Cons g gs)
  let ?A = "\<lambda>x. key x = Some g"
  let ?B = "\<lambda>x. case key x of None \<Rightarrow> False | Some g \<Rightarrow> g \<in> set gs"
  from Cons.prems have g: "g \<notin> set gs" and d: "distinct gs" by simp_all
  have split: "(\<lambda>x. case key x of None \<Rightarrow> False | Some g' \<Rightarrow> g' \<in> set (g # gs)) = (\<lambda>x. ?A x \<or> ?B x)"
    by (auto simp: fun_eq_iff split: option.splits)
  have disj: "\<forall>x\<in>set xs. \<not> (?A x \<and> ?B x)"
    using g by (auto split: option.splits)
  show ?case
    unfolding split sum_list_filter_disj [OF disj] using Cons.IH [OF d] by simp
qed

lemma enumerate_nth: "enumerate 0 xs = map (\<lambda>i. (i, xs ! i)) [0..<length xs]"
  by (rule nth_equalityI) (simp_all add: nth_enumerate_eq)

lemma sum_list_enumerate_filter:
  "(\<Sum>p\<leftarrow>filter (\<lambda>p. Q (snd p)) (enumerate 0 cs). F (fst p) (snd p)) =
   (\<Sum>i\<leftarrow>filter (\<lambda>i. Q (cs ! i)) [0..<length cs]. F i (cs ! i))"
  unfolding enumerate_nth filter_map by (simp add: comp_def)


lemma link_groups_loop_link:
  assumes r: "physics_links frag_xml = Inr (d, st)"
    and b: "length (children (lod1 frag_xml)) \<le> length (bounds (archetype (lod1 frag_xml)))"
    and l: "l < length (links st)"
  shows "link_groups_loop (bounds (archetype (lod1 frag_xml))) d (links st ! l) (Vector 0 0 0, 0) =
     Inr (link_weighted_sum frag_xml st l, link_mass frag_xml st l)"
proof -
  let ?n = "length (groups (lod1 frag_xml))"
  let ?cs = "children (lod1 frag_xml)"
  let ?bs = "bounds (archetype (lod1 frag_xml))"
  let ?gs = "links st ! l"
  let ?key = "\<lambda>p. py_index ?n (group_index (snd p))"
  let ?Q = "\<lambda>c. case py_index ?n (group_index c) of None \<Rightarrow> False | Some g \<Rightarrow> g \<in> set ?gs"
  let ?W = "\<lambda>i c. vscale (child_center_of (?bs ! i)) (pristine_mass c)"
  let ?M = "\<lambda>i c. pristine_mass c"
  note ok = physics_links_ok [OF r]
  have cg: "children_of_group d g = filter (\<lambda>p. ?key p = Some g) (enumerate 0 ?cs)" for g
    using children_by_group_loop_result [OF ok(1)] by simp
  have "?gs \<in> set (links st)"
    using l by simp
  with ok(2) have dist: "distinct ?gs"
    unfolding links_ok_def by blast
  have inb: "\<forall>g\<in>set ?gs. \<forall>p\<in>set (children_of_group d g). fst p < length ?bs"
    unfolding cg using b by (auto simp: in_set_enumerate_eq)
  have w: "(\<Sum>g\<leftarrow>?gs. \<Sum>p\<leftarrow>children_of_group d g. ?W (fst p) (snd p)) = link_weighted_sum frag_xml st l"
  proof -
    have "(\<Sum>g\<leftarrow>?gs. \<Sum>p\<leftarrow>children_of_group d g. ?W (fst p) (snd p)) =
        (\<Sum>p\<leftarrow>filter (\<lambda>p. ?Q (snd p)) (enumerate 0 ?cs). ?W (fst p) (snd p))"
      unfolding cg by (rule sum_list_by_groups [OF dist])
    also have "\<dots> = (\<Sum>i\<leftarrow>filter (\<lambda>i. ?Q (?cs ! i)) [0..<length ?cs]. ?W i (?cs ! i))"
      by (rule sum_list_enumerate_filter)
    finally show ?thesis
      by (simp add: link_weighted_sum_def link_children_def in_link_def)
  qed
  have m: "(\<Sum>g\<leftarrow>?gs. \<Sum>p\<leftarrow>children_of_group d g. ?M (fst p) (snd p)) = link_mass frag_xml st l"
  proof -
    have "(\<Sum>g\<leftarrow>?gs. \<Sum>p\<leftarrow>children_of_group d g. ?M (fst p) (snd p)) =
        (\<Sum>p\<leftarrow>filter (\<lambda>p. ?Q (snd p)) (enumerate 0 ?cs). ?M (fst p) (snd p))"
      unfolding cg by (rule sum_list_by_groups [OF dist])
    also have "\<dots> = (\<Sum>i\<leftarrow>filter (\<lambda>i. ?Q (?cs ! i)) [0..<length ?cs]. ?M i (?cs ! i))"
      by (rule sum_list_enumerate_filter)
    finally show ?thesis
      by (simp add: link_mass_def link_children_def in_link_def)
  qed
  have z: "Vector 0 0 0 + v = v" for v
    by (simp add: zero_Vector_def [symmetric])
  show ?thesis
    unfolding link_groups_loop_eq [OF inb] w m z by simp
qed

lemma link_center_of_gravity_link:
  assumes r: "physics_links frag_xml = Inr (d, st)"
    and b: "length (children (lod1 frag_xml)) \<le> length (bounds (archetype (lod1 frag_xml)))"
    and l: "l < length (links st)"
  shows "link_center_of_gravity (bounds (archetype (lod1 frag_xml))) d (links st ! l) =
     (if link_mass frag_xml st l = 0 then Inl ZeroDivisionError else Inr (link_cg frag_xml st l))"
  unfolding link_center_of_gravity_def link_groups_loop_link [OF r b l]
  by (simp add: vdiv_def link_cg_def)

lemma links_cg_loop_eq:
  assumes "\<forall>l<length ls. link_center_of_gravity bs d (ls ! l) = Inr (F l)"
  shows "links_cg_loop bs d ls = Inr (map F [0..<length ls])"
  using assms
proof (induction ls arbitrary: F)
  case Nil
  then show ?case by simp
next
  case (Cons gs ls)
  from Cons.prems have 0: "link_center_of_gravity bs d gs = Inr (F 0)"
    by auto
  from Cons.prems have "\<forall>l<length ls. link_center_of_gravity bs d (ls ! l) = Inr (F (Suc l))"
    by auto
  from Cons.IH [of "\<lambda>l. F (Suc l)", OF this]
  have r: "links_cg_loop bs d ls = Inr (map (\<lambda>l. F (Suc l)) [0..<length ls])" .
  have "map F [0..<length (gs # ls)] = F 0 # map (\<lambda>l. F (Suc l)) [0..<length ls]"
    by (simp add: upt_conv_Cons map_Suc_upt [symmetric] del: upt_Suc)
  then show ?case
    by (simp add: 0 r del: upt_Suc)
qed

lemma transforms_loop_returns:
  assumes "\<forall>p\<in>set xs. fst p < length bs \<and> py_index (length lbg) (group_index (snd p)) \<noteq> None"
    and "\<forall>link_index\<in>set lbg. py_index (length cgs) link_index \<noteq> None"
  shows "\<exists>ts. transforms_loop cgs lbg bs xs = Inr ts \<and> length ts = length xs"
  using assms(1)
proof (induction xs)
  case Nil
  then show ?case by simp
next
  case (Cons x xs)
  obtain i c where x: "x = (i, c)" by (cases x)
  from Cons.prems have i: "i < length bs"
    and "py_index (length lbg) (group_index c) \<noteq> None"
    and rest: "\<forall>p\<in>set xs. fst p < length bs \<and> py_index (length lbg) (group_index (snd p)) \<noteq> None"
    by (simp_all add: x)
  then obtain j where j: "py_index (length lbg) (group_index c) = Some j"
    by auto
  have "j < length lbg"
    by (rule py_index_Some_less [OF j])
  then have "lbg ! j \<in> set lbg"
    by simp
  with assms(2) obtain j' where j': "py_index (length cgs) (lbg ! j) = Some j'"
    by auto
  from Cons.IH [OF rest] obtain ts where
    ts: "transforms_loop cgs lbg bs xs = Inr ts" "length ts = length xs"
    by blast
  show ?case
    by (simp add: x py_get_def j j' i ts)
qed

lemma links_cg_loop_error:
  assumes "\<forall>l<length ls. link_center_of_gravity bs d (ls ! l) =
             (if Z l then Inl ZeroDivisionError else Inr (F l))"
    and "\<exists>l<length ls. Z l"
  shows "links_cg_loop bs d ls = Inl ZeroDivisionError"
  using assms
proof (induction ls arbitrary: Z F)
  case Nil
  then show ?case by simp
next
  case (Cons gs ls)
  from Cons.prems(1) have 0: "link_center_of_gravity bs d gs =
      (if Z 0 then Inl ZeroDivisionError else Inr (F 0))"
    by auto
  show ?case
  proof (cases "Z 0")
    case True
    with 0 show ?thesis by simp
  next
    case False
    from Cons.prems(1) have a: "\<forall>l<length ls. link_center_of_gravity bs d (ls ! l) =
             (if Z (Suc l) then Inl ZeroDivisionError else Inr (F (Suc l)))"
      by auto
    from Cons.prems(2) obtain l where l: "l < length (gs # ls)" "Z l"
      by blast
    with False obtain l' where "l = Suc l'"
      by (cases l) auto
    with l have b: "\<exists>l<length ls. Z (Suc l)"
      by auto
    from Cons.IH [of "\<lambda>l. Z (Suc l)" "\<lambda>l. F (Suc l)", OF a b] 0 False
    show ?thesis by simp
  qed
qed

text \<open>
  Claim C3, as the code has it. Let the links of lines 523-552 be computed and let every
  child have an entry in the bounds. When the total mass of every link is not zero, the
  function returns; the centre of gravity of each link is the sum, over the children of the
  groups of the link, of centre times mass (the centre the zero vector for a child without
  bound), divided by the total mass of those children; and \<open>position_offset\<close> and
  \<open>unknown_40\<close> hold that of link 0 plus \<open>unknown_50\<close>. When the total mass of some link is
  zero, the function raises \<open>ZeroDivisionError\<close>, whatever the mass of the other links.
\<close>

theorem link_center_of_gravity_weighted_mean:
  assumes r: "physics_links frag_xml = Inr (d, st)"
    and b: "length (children (lod1 frag_xml)) \<le> length (bounds (archetype (lod1 frag_xml)))"
  shows "((\<forall>l<length (links st). link_mass frag_xml st l \<noteq> 0) \<longrightarrow>
      (\<exists>frag_xml'. calculate_physics_lod_transforms frag_xml = Inr frag_xml' \<and>
         links_cg_loop (bounds (archetype (lod1 frag_xml))) d (links st) =
           Inr (map (link_cg frag_xml st) [0..<length (links st)]) \<and>
         position_offset (lod1 frag_xml') = link_cg frag_xml st 0 + unknown_50 (lod1 frag_xml) \<and>
         unknown_40 (lod1 frag_xml') = position_offset (lod1 frag_xml') \<and>
         length (transforms (lod1 frag_xml')) =
           length (transforms (lod1 frag_xml)) + length (children (lod1 frag_xml)))) \<and>
     ((\<exists>l<length (links st). link_mass frag_xml st l = 0) \<longrightarrow>
        calculate_physics_lod_transforms frag_xml = Inl ZeroDivisionError)"
proof (intro conjI impI)
  let ?bs = "bounds (archetype (lod1 frag_xml))"
  let ?cs = "children (lod1 frag_xml)"
  let ?lbg = "link_index_by_group st"
  let ?F = "link_cg frag_xml st"
  note ok = physics_links_ok [OF r]
  assume m: "\<forall>l<length (links st). link_mass frag_xml st l \<noteq> 0"
  have lc: "\<forall>l<length (links st). link_center_of_gravity ?bs d (links st ! l) = Inr (?F l)"
    using link_center_of_gravity_link [OF r b] m by simp
  have cgs: "links_cg_loop ?bs d (links st) = Inr (map ?F [0..<length (links st)])"
    by (rule links_cg_loop_eq [OF lc])
  define others where "others = map ?F [Suc 0..<length (links st)]"
  from ok(2) have "links st \<noteq> []"
    unfolding links_ok_def by simp
  then have pos: "0 < length (links st)"
    by simp
  have "[0..<length (links st)] = 0 # [Suc 0..<length (links st)]"
    using pos by (simp add: upt_conv_Cons)
  then have spl: "map ?F [0..<length (links st)] = ?F 0 # others"
    by (simp add: others_def)
  let ?lcg = "(?F 0 + unknown_50 (lod1 frag_xml)) # others"
  have len: "length ?lcg = length (links st)"
    using pos by (simp add: others_def)
  have 1: "\<forall>p\<in>set (enumerate 0 ?cs). fst p < length ?bs \<and>
             py_index (length ?lbg) (group_index (snd p)) \<noteq> None"
    using children_by_group_loop_result [OF ok(1)] b unfolding ok(3)
    by (auto simp: in_set_enumerate_eq)
  have 2: "\<forall>link_index\<in>set ?lbg. py_index (length ?lcg) link_index \<noteq> None"
    unfolding len using ok(2) unfolding links_ok_def by blast
  from transforms_loop_returns [OF 1 2] obtain ts where
    ts: "transforms_loop ?lcg ?lbg ?bs (enumerate 0 ?cs) = Inr ts"
    and lts: "length ts = length (enumerate 0 ?cs)"
    by blast
  let ?frag' = "frag_xml\<lparr>lod1 := (lod1 frag_xml)
                 \<lparr>position_offset := ?F 0 + unknown_50 (lod1 frag_xml),
                  unknown_40 := ?F 0 + unknown_50 (lod1 frag_xml),
                  transforms := transforms (lod1 frag_xml) @ ts\<rparr>\<rparr>"
  have res: "calculate_physics_lod_transforms frag_xml = Inr ?frag'"
    unfolding calculate_physics_lod_transforms_def Let_def r
    by (simp add: cgs [unfolded spl] ts)
  show "\<exists>frag_xml'. calculate_physics_lod_transforms frag_xml = Inr frag_xml' \<and>
         links_cg_loop ?bs d (links st) = Inr (map ?F [0..<length (links st)]) \<and>
         position_offset (lod1 frag_xml') = ?F 0 + unknown_50 (lod1 frag_xml) \<and>
         unknown_40 (lod1 frag_xml') = position_offset (lod1 frag_xml') \<and>
         length (transforms (lod1 frag_xml')) =
           length (transforms (lod1 frag_xml)) + length ?cs"
    apply (rule exI [of _ ?frag'])
    using res cgs lts by simp
next
  let ?bs = "bounds (archetype (lod1 frag_xml))"
  assume z: "\<exists>l<length (links st). link_mass frag_xml st l = 0"
  have lc: "\<forall>l<length (links st). link_center_of_gravity ?bs d (links st ! l) =
      (if link_mass frag_xml st l = 0 then Inl ZeroDivisionError else Inr (link_cg frag_xml st l))"
    using link_center_of_gravity_link [OF r b] by simp
  have "links_cg_loop ?bs d (links st) = Inl ZeroDivisionError"
    by (rule links_cg_loop_error [OF lc z])
  then show "calculate_physics_lod_transforms frag_xml = Inl ZeroDivisionError"
    unfolding calculate_physics_lod_transforms_def Let_def r by simp
qed

lemma cg_example_links:
  "physics_links cg_example_frag =
     Inr ([(0, [(0, cg_example_child 0 10 1), (1, cg_example_child 0 10 1)])],
          \<lparr>links = [[0]], link_index_by_group = [0]\<rparr>)"
  by (simp add: physics_links_def cg_example_frag_def py_index_def defaultdict_append_def
      link_step_def choose_link_def cg_example_child_def)

lemma cg_example_mass:
  "link_mass cg_example_frag \<lparr>links = [[0]], link_index_by_group = [0]\<rparr> 0 = 2"
  by (simp add: link_mass_def link_children_def in_link_def cg_example_frag_def py_index_def
      cg_example_child_def upt_conv_Cons)

lemma cg_example_cg:
  "link_cg cg_example_frag \<lparr>links = [[0]], link_index_by_group = [0]\<rparr> 0 = Vector 1 0 0"
  unfolding link_cg_def cg_example_mass
  by (simp add: link_weighted_sum_def link_children_def in_link_def cg_example_frag_def
      py_index_def cg_example_child_def upt_conv_Cons child_center_of_def cg_example_bound_def
      bound_center_def Matrix_Identity_def vscale_def plus_Vector_def zero_Vector_def)

text \<open>
  The example of the specification: centres \<open>(0, 0, 0)\<close> and \<open>(2, 0, 0)\<close>, each of mass 1,
  give \<open>(1, 0, 0)\<close>, and \<open>(1, 0, 1)\<close> with the offset \<open>(0, 0, 1)\<close>.
\<close>

theorem link_center_of_gravity_weighted_mean_witness:
  "\<exists>frag_xml'. calculate_physics_lod_transforms cg_example_frag = Inr frag_xml' \<and>
     link_cg cg_example_frag \<lparr>links = [[0]], link_index_by_group = [0]\<rparr> 0 = Vector 1 0 0 \<and>
     position_offset (lod1 frag_xml') = Vector 1 0 1 \<and>
     unknown_40 (lod1 frag_xml') = Vector 1 0 1"
proof -
  let ?st = "\<lparr>links = [[0]], link_index_by_group = [0]\<rparr>"
  have b: "length (children (lod1 cg_example_frag)) \<le> length (bounds (archetype (lod1 cg_example_frag)))"
    by (simp add: cg_example_frag_def)
  have m: "\<forall>l<length (links ?st). link_mass cg_example_frag ?st l \<noteq> 0"
    by (simp add: cg_example_mass)
  from link_center_of_gravity_weighted_mean [OF cg_example_links b, THEN conjunct1, THEN mp, OF m]
  obtain frag_xml' where
    1: "calculate_physics_lod_transforms cg_example_frag = Inr frag_xml'"
    and 2: "position_offset (lod1 frag_xml') =
              link_cg cg_example_frag ?st 0 + unknown_50 (lod1 cg_example_frag)"
    and 3: "unknown_40 (lod1 frag_xml') = position_offset (lod1 frag_xml')"
    by blast
  have 4: "position_offset (lod1 frag_xml') = Vector 1 0 1"
    unfolding 2 cg_example_cg by (simp add: cg_example_frag_def plus_Vector_def)
  show ?thesis
    apply (rule exI [of _ frag_xml'])
    using 1 3 4 cg_example_cg by simp
qed

text \<open>
  The claim read for the root link alone fails. The body has mass 1, so the root link has
  a positive total mass; the door on its hinge is a link of total mass 0. The division for
  the door raises, and no root value is stored in \<open>position_offset\<close>.
\<close>

theorem massless_link_raises:
  "map_sum id snd (physics_links massless_door_frag) =
     Inr \<lparr>links = [[0], [1]], link_index_by_group = [0, 1]\<rparr> \<and>
   link_mass massless_door_frag \<lparr>links = [[0], [1]], link_index_by_group = [0, 1]\<rparr> 0 = 1 \<and>
   calculate_physics_lod_transforms massless_door_frag = Inl ZeroDivisionError"
proof -
  have l: "physics_links massless_door_frag =
     Inr ([(0, [(0, cg_example_child 0 10 1)]), (1, [(1, cg_example_child 1 11 0)])],
          \<lparr>links = [[0], [1]], link_index_by_group = [0, 1]\<rparr>)"
    by (simp add: physics_links_def massless_door_frag_def py_index_def defaultdict_append_def
        link_step_def choose_link_def children_of_group_def creates_new_link_def
        cg_example_child_def)
  have m: "link_mass massless_door_frag \<lparr>links = [[0], [1]], link_index_by_group = [0, 1]\<rparr> 0 = 1"
    by (simp add: link_mass_def link_children_def in_link_def massless_door_frag_def py_index_def
        cg_example_child_def upt_conv_Cons)
  have c: "calculate_physics_lod_transforms massless_door_frag = Inl ZeroDivisionError"
    unfolding calculate_physics_lod_transforms_def l
    by (simp add: massless_door_frag_def children_of_group_def link_center_of_gravity_def
        cg_example_child_def vdiv_def)
  show ?thesis
    using l m c by simp
qed

section \<open>Properties of the polymorphic lists\<close>

lemma parameters_step_unknown:
  "\<not> param_type_known child \<Longrightarrow> parameters_step t v a child items = Inr items"
  by (auto simp: parameters_step_def param_type_known_def split: option.splits)

lemma parameters_loop_append:
  "parameters_loop t v a (xs @ ys) items =
     (case parameters_loop t v a xs items of
        Inl e \<Rightarrow> Inl e
      | Inr items' \<Rightarrow> parameters_loop t v a ys items')"
proof (induction xs arbitrary: items)
  case Nil
  then show ?case by simp
next
  case (Cons x xs)
  then show ?case
    by (cases "parameters_step t v a x items") simp_all
qed

lemma parameters_loop_filter:
  "parameters_loop t v a nodes items =
   parameters_loop t v a (filter param_type_known nodes) items"
proof (induction nodes arbitrary: items)
  case Nil
  then show ?case by simp
next
  case (Cons child nodes)
  show ?case
  proof (cases "param_type_known child")
    case True
    then show ?thesis
      by (cases "parameters_step t v a child items") (simp_all add: Cons.IH)
  next
    case False
    then show ?thesis
      by (simp add: parameters_step_unknown Cons.IH)
  qed
qed

lemma bound_class_of_known:
  "bound_class_of s \<noteq> None \<longleftrightarrow>
     s \<in> {''Box'', ''Sphere'', ''Capsule'', ''Cylinder'', ''Disc'', ''Cloth'', ''Geometry'',
          ''GeometryBVH''}"
  by (simp add: bound_class_of_def)

lemma bound_step_unknown:
  assumes "\<not> bound_type_known child" and "bounds_tagged b"
  shows "bound_step p child b = Inr b"
proof (cases "get_type child")
  case None
  then show ?thesis
    by (simp add: bound_step_def)
next
  case (Some s)
  with assms have "bound_class_of s = None"
    using bound_class_of_known [of s] by (simp add: bound_type_known_def)
  then show ?thesis
    using assms(2) by (cases b) (simp_all add: bound_step_def Some bounds_tagged_def)
qed

lemma bound_step_tagged:
  assumes "bound_step p child b = Inr b'" and "bounds_tagged b"
  shows "bounds_tagged b'"
  using assms
  by (auto simp: bound_step_def bounds_tagged_def split: option.splits sum.splits)

lemma bound_loop_tagged:
  "bound_loop p nodes b = Inr b' \<Longrightarrow> bounds_tagged b \<Longrightarrow> bounds_tagged b'"
proof (induction nodes arbitrary: b)
  case Nil
  then show ?case by simp
next
  case (Cons child nodes)
  show ?case
  proof (cases "bound_step p child b")
    case (Inl e)
    with Cons.prems(1) show ?thesis by simp
  next
    case (Inr b1)
    then have "bounds_tagged b1"
      using bound_step_tagged Cons.prems(2) by blast
    moreover have "bound_loop p nodes b1 = Inr b'"
      using Cons.prems(1) Inr by simp
    ultimately show ?thesis
      by (rule Cons.IH [rotated])
  qed
qed

lemma bound_loop_append:
  "bound_loop p (xs @ ys) b =
     (case bound_loop p xs b of Inl e \<Rightarrow> Inl e | Inr b' \<Rightarrow> bound_loop p ys b')"
proof (induction xs arbitrary: b)
  case Nil
  then show ?case by simp
next
  case (Cons x xs)
  then show ?case
    by (cases "bound_step p x b") simp_all
qed

lemma bound_loop_filter:
  "bounds_tagged b \<Longrightarrow>
   bound_loop p nodes b = bound_loop p (filter bound_type_known nodes) b"
proof (induction nodes arbitrary: b)
  case Nil
  then show ?case by simp
next
  case (Cons child nodes)
  show ?case
  proof (cases "bound_type_known child")
    case True
    show ?thesis
    proof (cases "bound_step p child b")
      case (Inl e)
      then show ?thesis using True by simp
    next
      case (Inr b')
      then have "bounds_tagged b'"
        using bound_step_tagged Cons.prems by blast
      then show ?thesis
        using True Inr Cons.IH [of b'] by simp
    qed
  next
    case False
    then show ?thesis
      using Cons.prems Cons.IH [of b] by (simp add: bound_step_unknown)
  qed
qed

lemma bounds_tagged_None: "bounds_tagged None"
  by (simp add: bounds_tagged_def)

text \<open>
  Claim C9, as the code has it. Both parsers walk \<open>element.iter()\<close>, the element itself and
  all its descendants. A node whose \<open>type\<close> is none of the known discriminators is skipped:
  visiting it after any other nodes raises nothing and leaves the parameter list, or the
  bound, as it was, so that the parsed parameter list and the bound are what the nodes of a
  known type alone give. The bound is therefore left unset when no node of the walk has one
  of the eight types; a bound node of another type does not keep its own descendants from
  setting the bound.
\<close>

theorem unknown_type_silently_dropped:
  "(\<not> param_type_known child \<longrightarrow>
      parameters_loop t v a (nodes @ [child]) [] = parameters_loop t v a nodes []) \<and>
   ParametersListProperty_from_xml t v a parameters =
     parameters_loop t v a (filter param_type_known (iter parameters)) [] \<and>
   (\<not> bound_type_known child \<longrightarrow>
      bound_loop p (nodes @ [child]) None = bound_loop p nodes None) \<and>
   Drawable_from_xml super_from_xml p element =
     (case super_from_xml element of
        Inl e \<Rightarrow> Inl e
      | Inr new \<Rightarrow>
          (case bound_loop p (filter bound_type_known (iter element)) None of
             Inl e \<Rightarrow> Inl e
           | Inr b \<Rightarrow> Inr \<lparr>base = new, bound = b\<rparr>)) \<and>
   (filter bound_type_known (iter element) = [] \<longrightarrow>
      (\<forall>new. super_from_xml element = Inr new \<longrightarrow>
         Drawable_from_xml super_from_xml p element = Inr \<lparr>base = new, bound = None\<rparr>))"
proof (intro conjI impI allI)
  assume u: "\<not> param_type_known child"
  show "parameters_loop t v a (nodes @ [child]) [] = parameters_loop t v a nodes []"
    unfolding parameters_loop_append
    by (cases "parameters_loop t v a nodes []") (simp_all add: parameters_step_unknown [OF u])
next
  show "ParametersListProperty_from_xml t v a parameters =
     parameters_loop t v a (filter param_type_known (iter parameters)) []"
    unfolding ParametersListProperty_from_xml_def by (rule parameters_loop_filter)
next
  assume u: "\<not> bound_type_known child"
  show "bound_loop p (nodes @ [child]) None = bound_loop p nodes None"
  proof (cases "bound_loop p nodes None")
    case (Inl e)
    then show ?thesis
      by (simp add: bound_loop_append)
  next
    case (Inr b)
    then have "bounds_tagged b"
      using bound_loop_tagged bounds_tagged_None by blast
    then show ?thesis
      using Inr by (simp add: bound_loop_append bound_step_unknown [OF u])
  qed
next
  show "Drawable_from_xml super_from_xml p element =
     (case super_from_xml element of
        Inl e \<Rightarrow> Inl e
      | Inr new \<Rightarrow>
          (case bound_loop p (filter bound_type_known (iter element)) None of
             Inl e \<Rightarrow> Inl e
           | Inr b \<Rightarrow> Inr \<lparr>base = new, bound = b\<rparr>))"
    unfolding Drawable_from_xml_def
      bound_loop_filter [OF bounds_tagged_None, of p "iter element", symmetric] ..
next
  fix new
  assume none: "filter bound_type_known (iter element) = []"
    and new: "super_from_xml element = Inr new"
  have "bound_loop p (iter element) None = Inr None"
    using bound_loop_filter [OF bounds_tagged_None, of p "iter element"] none by simp
  then show "Drawable_from_xml super_from_xml p element = Inr \<lparr>base = new, bound = None\<rparr>"
    by (simp add: Drawable_from_xml_def new)
qed

lemma parameters_xml_nodes:
  "iter parameters_xml =
     [parameters_xml,
      Element ''Item'' [(''name'', ''DiffuseSampler''), (''type'', ''Texture'')] [],
      Element ''Item'' [(''name'', ''Noise''), (''type'', ''Sampler'')] [],
      Element ''Item'' [(''name'', ''Tint''), (''type'', ''Vector'')] []]"
  by (simp add: parameters_xml_def)

text \<open>
  A parameter of type \<open>Sampler\<close> between a texture and a vector, and a drawable whose only
  typed node is a bound of type \<open>Polyhedron\<close>.
\<close>

theorem unknown_type_silently_dropped_witness:
  "parameters_loop name_of name_of name_of
     ([Element ''Item'' [(''name'', ''DiffuseSampler''), (''type'', ''Texture'')] []] @
      [Element ''Item'' [(''name'', ''Noise''), (''type'', ''Sampler'')] []]) [] =
     Inr [TextureShaderParameter ''DiffuseSampler''] \<and>
   ParametersListProperty_from_xml name_of name_of name_of parameters_xml =
     Inr [TextureShaderParameter ''DiffuseSampler'', VectorShaderParameter ''Tint''] \<and>
   bound_loop (\<lambda>cls. tag_of)
     ([Element ''Name'' [] []] @ [Element ''Bounds'' [(''type'', ''Polyhedron'')] []]) None =
     Inr None \<and>
   Drawable_from_xml tag_of (\<lambda>cls. tag_of) unknown_bound_xml =
     Inr \<lparr>base = ''Drawable'', bound = None\<rparr>"
proof -
  let ?tex = "Element ''Item'' [(''name'', ''DiffuseSampler''), (''type'', ''Texture'')] []"
  let ?smp = "Element ''Item'' [(''name'', ''Noise''), (''type'', ''Sampler'')] []"
  let ?poly = "Element ''Bounds'' [(''type'', ''Polyhedron'')] []"
  note par = unknown_type_silently_dropped [where child = ?smp and nodes = "[?tex]"
      and t = name_of and v = name_of and a = name_of and parameters = parameters_xml
      and p = "\<lambda>cls. tag_of" and super_from_xml = tag_of and element = unknown_bound_xml]
  note bnd = unknown_type_silently_dropped [where child = ?poly and nodes = "[Element ''Name'' [] []]"
      and t = name_of and v = name_of and a = name_of and parameters = parameters_xml
      and p = "\<lambda>cls. tag_of" and super_from_xml = tag_of and element = unknown_bound_xml]
  have u1: "\<not> param_type_known ?smp"
    by (simp add: param_type_known_def get_type_def)
  have u2: "\<not> bound_type_known ?poly"
    by (simp add: bound_type_known_def get_type_def)
  have none: "filter bound_type_known (iter unknown_bound_xml) = []"
    by (simp add: unknown_bound_xml_def bound_type_known_def get_type_def)
  have new: "tag_of unknown_bound_xml = Inr ''Drawable''"
    by (simp add: tag_of_def unknown_bound_xml_def)
  have 1: "parameters_loop name_of name_of name_of ([?tex] @ [?smp]) [] =
      Inr [TextureShaderParameter ''DiffuseSampler'']"
    unfolding par [THEN conjunct1, THEN mp, OF u1]
    by (simp add: parameters_step_def get_type_def name_of_def)
  have 2: "ParametersListProperty_from_xml name_of name_of name_of parameters_xml =
      Inr [TextureShaderParameter ''DiffuseSampler'', VectorShaderParameter ''Tint'']"
    unfolding par [THEN conjunct2, THEN conjunct1] parameters_xml_nodes
    by (simp add: param_type_known_def parameters_step_def get_type_def name_of_def
        parameters_xml_def)
  have 3: "bound_loop (\<lambda>cls. tag_of) ([Element ''Name'' [] []] @ [?poly]) None = Inr None"
    unfolding bnd [THEN conjunct2, THEN conjunct2, THEN conjunct1, THEN mp, OF u2]
    by (simp add: bound_step_def get_type_def)
  have 4: "Drawable_from_xml tag_of (\<lambda>cls. tag_of) unknown_bound_xml =
      Inr \<lparr>base = ''Drawable'', bound = None\<rparr>"
    using bnd [THEN conjunct2, THEN conjunct2, THEN conjunct2, THEN conjunct2, THEN mp,
        OF none, THEN spec, THEN mp, OF new] .
  show ?thesis
    using 1 2 3 4 by (intro conjI)
qed

text \<open>
  The claim read as a statement about the drawable fails: a bound of type \<open>Composite\<close>,
  which is none of the eight, holding one box. The walk reaches the box inside the
  composite, and the drawable ends with that box as its bound.
\<close>

theorem composite_bound_sets_bound:
  "get_type (subelements composite_bound_xml ! 1) = Some ''Composite'' \<and>
   bound_class_of ''Composite'' = None \<and>
   Drawable_from_xml tag_of (\<lambda>cls. tag_of) composite_bound_xml =
     Inr \<lparr>base = ''Drawable'',
          bound = Some \<lparr>bound_kind = BoundBox, tag_name = ''Bounds'', content = ''Item''\<rparr>\<rparr>"
  by (simp add: composite_bound_xml_def get_type_def bound_class_of_def Drawable_from_xml_def
      bound_step_def tag_of_def)

end
